theory Spec2Isabelle
  imports
    Complex_Main
    "HOL-Library.Word"
    "HOL-Library.Char_ord"
    "HOL-Library.List_Lexorder"
    "HOL-Library.Product_Lexorder"
    "HOL-Library.Multiset"
begin

section \<open>Raster images and Python ranges\<close>

text \<open>
  An image as the scanners see it after \<open>convert("RGBA")\<close>: its size and the pixel
  accessor returned by \<open>load()\<close>.  Channels are bytes.  Coordinates are Python integers;
  the scanners only read the accessor at \<open>0 \<le> x < width\<close>, \<open>0 \<le> y < height\<close> whenever
  the starting row handed to them is not negative.
\<close>

type_synonym rgba = "8 word \<times> 8 word \<times> 8 word \<times> 8 word"

record image =
  width :: int
  height :: int
  px :: "int \<Rightarrow> int \<Rightarrow> rgba"




definition alpha :: "rgba \<Rightarrow> int" where
  "alpha p = (case p of (r, g, b, a) \<Rightarrow> uint a)"

text \<open>\<open>range(n)\<close> and \<open>range(a, b)\<close>; both are empty when the bound is not above the start.\<close>

definition range_py :: "int \<Rightarrow> int list" where
  "range_py n = [0..n - 1]"

definition range_from :: "int \<Rightarrow> int \<Rightarrow> int list" where
  "range_from a b = [a..b - 1]"

text \<open>A loop that returns from the function at the first iteration that produces a value.\<close>

fun first_some :: "('a \<Rightarrow> 'b option) \<Rightarrow> 'a list \<Rightarrow> 'b option" where
  "first_some f [] = None"
| "first_some f (x # xs) = (case f x of Some r \<Rightarrow> Some r | None \<Rightarrow> first_some f xs)"

section \<open>Alpha-boundary scanners (png_to_svg.py)\<close>

definition find_first_nontransparent_pixel :: "image \<Rightarrow> int \<Rightarrow> (int \<times> int) option" where
  "find_first_nontransparent_pixel im alpha_min_value =
     first_some (\<lambda>y.
       first_some (\<lambda>x. if alpha (px im x y) \<ge> alpha_min_value then Some (x, y) else None)
         (range_py (width im)))
       (range_py (height im))"

definition find_last_nontransparent_pixel :: "image \<Rightarrow> int \<Rightarrow> (int \<times> int) option" where
  "find_last_nontransparent_pixel im alpha_min_value =
     first_some (\<lambda>y.
       first_some (\<lambda>x. if alpha (px im x y) \<ge> alpha_min_value then Some (x, y) else None)
         (rev (range_py (width im))))
       (rev (range_py (height im)))"

definition find_leftmost_nontransparent_pixel :: "image \<Rightarrow> int \<Rightarrow> (int \<times> int) option" where
  "find_leftmost_nontransparent_pixel im alpha_min_value =
     first_some (\<lambda>x.
       first_some (\<lambda>y. if alpha (px im x y) \<ge> alpha_min_value then Some (x, y) else None)
         (range_py (height im)))
       (range_py (width im))"

definition find_rightmost_nontransparent_pixel :: "image \<Rightarrow> int \<Rightarrow> (int \<times> int) option" where
  "find_rightmost_nontransparent_pixel im alpha_min_value =
     first_some (\<lambda>x.
       first_some (\<lambda>y. if alpha (px im x y) \<ge> alpha_min_value then Some (x, y) else None)
         (range_py (height im)))
       (rev (range_py (width im)))"

section \<open>Strings: hexadecimal bytes\<close>

datatype error = ValueError | ZeroDivisionError | IndexError | TypeError | UnicodeEncodeError

text \<open>\<open>_to_hex\<close>: the format \<open>02X\<close> of a channel value, which is a byte.\<close>

definition hex_digit :: "nat \<Rightarrow> char" where
  "hex_digit n = ''0123456789ABCDEF'' ! n"

definition to_hex :: "8 word \<Rightarrow> string" where
  "to_hex val = [hex_digit (unat val div 16), hex_digit (unat val mod 16)]"

definition rgba_hex :: "rgba \<Rightarrow> string" where
  "rgba_hex p = (case p of (r, g, b, a) \<Rightarrow> ''#'' @ to_hex r @ to_hex g @ to_hex b @ to_hex a)"

text \<open>
  \<open>int(s, 16)\<close> as Python reads a string of at most two characters, the only ones handed
  to it here (\<open>k[-2:]\<close>, \<open>fill[1:3]\<close>, \<open>fill[3:5]\<close>, \<open>fill[5:7]\<close>): surrounding white space
  is stripped, one sign is allowed, and what remains must be hexadecimal digits.  (A
  \<open>0x\<close> prefix or an underscore needs three characters to be accepted.)  Characters are
  those below 256.  The white space that \<open>int\<close> strips from such a string is the characters
  9 to 13, 32, 133 and 160; the separators 28 to 31, which \<open>str.split\<close> also takes for
  white space, make \<open>int\<close> raise.
\<close>

definition is_space :: "char \<Rightarrow> bool" where
  "is_space c \<longleftrightarrow> (of_char c :: nat) \<in> {9, 10, 11, 12, 13, 28, 29, 30, 31, 32, 133, 160}"

definition is_int_space :: "char \<Rightarrow> bool" where
  "is_int_space c \<longleftrightarrow> (of_char c :: nat) \<in> {9, 10, 11, 12, 13, 32, 133, 160}"

definition strip :: "string \<Rightarrow> string" where
  "strip s = rev (dropWhile is_int_space (rev (dropWhile is_int_space s)))"

definition hex_val :: "char \<Rightarrow> int option" where
  "hex_val c =
     (let n = (of_char c :: nat) in
      if 48 \<le> n \<and> n \<le> 57 then Some (int n - 48)
      else if 65 \<le> n \<and> n \<le> 70 then Some (int n - 55)
      else if 97 \<le> n \<and> n \<le> 102 then Some (int n - 87)
      else None)"

fun hex_digits :: "int \<Rightarrow> string \<Rightarrow> int option" where
  "hex_digits acc [] = Some acc"
| "hex_digits acc (c # cs) =
     (case hex_val c of None \<Rightarrow> None | Some d \<Rightarrow> hex_digits (16 * acc + d) cs)"

definition int16 :: "string \<Rightarrow> error + int" where
  "int16 s =
     (case strip s of
        [] \<Rightarrow> Inl ValueError
      | c # cs \<Rightarrow>
          (let neg = (c = CHR ''-'');
               ds = (if c = CHR ''-'' \<or> c = CHR ''+'' then cs else c # cs)
           in if ds = [] then Inl ValueError
              else (case hex_digits 0 ds of
                      None \<Rightarrow> Inl ValueError
                    | Some v \<Rightarrow> Inr (if neg then - v else v))))"

section \<open>Row block scanner (png_to_svg.py, scan_row_blocks)\<close>

text \<open>
  One entry of \<open>blk_pixels\<close>.  The source also stores \<open>opacity_percent\<close>, which nothing
  reads; the channels are kept together.
\<close>

record pix_entry =
  pe_x :: int
  pe_y :: int
  pe_rgba :: rgba

record color_entry =
  ce_rgba_hex :: string
  ce_rgb_hex :: string
  ce_a :: int
  ce_count :: int
  ce_coords :: "(int \<times> int) list"

record block =
  b_index :: int
  b_origin_x :: int
  b_origin_y :: int
  b_actual_w :: int
  b_actual_h :: int
  b_visible_pixels :: int
  b_skipped_pixels :: int
  b_unique_colors :: int
  b_color_counts :: "color_entry list"

record row =
  r_block_size :: int
  r_blocks :: "block list"
  r_total_blocks :: int
  r_first_pixel :: "int \<times> int"
  r_last_pixel_visited :: "int \<times> int"

text \<open>The local variables of the loop that collects one block.\<close>

record blk_acc =
  blk_pixels :: "pix_entry list"
  blk_color_counts :: "(string \<times> int) list"
  visible :: int
  skipped :: int
  actual_w :: int
  actual_h :: int
  row_present :: bool

text \<open>\<open>d[k] = d.get(k, 0) + 1\<close> on a dictionary that keeps insertion order.\<close>

fun dict_incr :: "string \<Rightarrow> (string \<times> int) list \<Rightarrow> (string \<times> int) list" where
  "dict_incr k [] = [(k, 1)]"
| "dict_incr k ((k', v) # kvs) =
     (if k = k' then (k', v + 1) # kvs else (k', v) # dict_incr k kvs)"

text \<open>\<open>d.setdefault(k, []).append(c)\<close>.\<close>

fun setdefault_append ::
  "string \<Rightarrow> int \<times> int \<Rightarrow> (string \<times> (int \<times> int) list) list \<Rightarrow> (string \<times> (int \<times> int) list) list" where
  "setdefault_append k c [] = [(k, [c])]"
| "setdefault_append k c ((k', cs) # kvs) =
     (if k = k' then (k', cs @ [c]) # kvs else (k', cs) # setdefault_append k c kvs)"

text \<open>A \<open>for\<close> loop whose body starts with a test that leaves the loop.\<close>

fun loop_until :: "('a \<Rightarrow> bool) \<Rightarrow> ('a \<Rightarrow> 's \<Rightarrow> 's) \<Rightarrow> 'a list \<Rightarrow> 's \<Rightarrow> 's" where
  "loop_until brk body [] s = s"
| "loop_until brk body (i # is) s = (if brk i then s else loop_until brk body is (body i s))"

definition visit_pixel :: "image \<Rightarrow> int \<Rightarrow> int \<Rightarrow> int \<Rightarrow> int \<Rightarrow> blk_acc \<Rightarrow> blk_acc" where
  "visit_pixel im alpha_min_value sx sy dx st =
     (let p = px im sx sy;
          st1 = st\<lparr>blk_pixels := blk_pixels st @ [\<lparr>pe_x = sx, pe_y = sy, pe_rgba = p\<rparr>]\<rparr>;
          st2 = (if alpha p \<ge> alpha_min_value
                 then st1\<lparr>blk_color_counts := dict_incr (rgba_hex p) (blk_color_counts st1),
                          visible := visible st1 + 1\<rparr>
                 else st1\<lparr>skipped := skipped st1 + 1\<rparr>)
      in st2\<lparr>actual_w := max (actual_w st2) (dx + 1), row_present := True\<rparr>)"

definition scan_block_line :: "image \<Rightarrow> int \<Rightarrow> int \<Rightarrow> int \<Rightarrow> int \<Rightarrow> blk_acc \<Rightarrow> blk_acc" where
  "scan_block_line im block_size alpha_min_value origin_x sy st =
     (let st1 = loop_until (\<lambda>dx. origin_x + dx \<ge> width im)
                  (\<lambda>dx. visit_pixel im alpha_min_value (origin_x + dx) sy dx)
                  (range_py block_size) (st\<lparr>row_present := False\<rparr>)
      in if row_present st1 then st1\<lparr>actual_h := actual_h st1 + 1\<rparr> else st1)"

definition collect_block :: "image \<Rightarrow> int \<Rightarrow> int \<Rightarrow> int \<Rightarrow> int \<Rightarrow> blk_acc" where
  "collect_block im block_size alpha_min_value origin_x origin_y =
     loop_until (\<lambda>dy. origin_y + dy \<ge> height im)
       (\<lambda>dy. scan_block_line im block_size alpha_min_value origin_x (origin_y + dy))
       (range_py block_size)
       \<lparr>blk_pixels = [], blk_color_counts = [], visible = 0, skipped = 0,
        actual_w = 0, actual_h = 0, row_present = False\<rparr>"

definition build_color_coords :: "int \<Rightarrow> pix_entry list \<Rightarrow> (string \<times> (int \<times> int) list) list" where
  "build_color_coords alpha_min_value pixels =
     foldl (\<lambda>d pC. if alpha (pe_rgba pC) \<ge> alpha_min_value
                    then setdefault_append (rgba_hex (pe_rgba pC)) (pe_x pC, pe_y pC) d
                    else d) [] pixels"

text \<open>A list comprehension whose element expression may raise.\<close>

fun map_raise :: "('a \<Rightarrow> error + 'b) \<Rightarrow> 'a list \<Rightarrow> error + 'b list" where
  "map_raise f [] = Inr []"
| "map_raise f (x # xs) =
     (case f x of
        Inl e \<Rightarrow> Inl e
      | Inr y \<Rightarrow> (case map_raise f xs of Inl e \<Rightarrow> Inl e | Inr ys \<Rightarrow> Inr (y # ys)))"

definition color_entry_of ::
  "(string \<times> (int \<times> int) list) list \<Rightarrow> string \<times> int \<Rightarrow> error + color_entry" where
  "color_entry_of coords kv =
     (case kv of (k, v) \<Rightarrow>
        (case int16 (drop (length k - 2) k) of
           Inl e \<Rightarrow> Inl e
         | Inr a \<Rightarrow>
             Inr \<lparr>ce_rgba_hex = k, ce_rgb_hex = take 7 k, ce_a = a, ce_count = v,
                  ce_coords = (case map_of coords k of None \<Rightarrow> [] | Some cs \<Rightarrow> cs)\<rparr>))"

text \<open>\<open>sorted(blk_color_counts.items(), key=lambda kv: (-kv[1], kv[0]))\<close>.\<close>

definition sorted_items :: "(string \<times> int) list \<Rightarrow> (string \<times> int) list" where
  "sorted_items counts = sort_key (\<lambda>kv. (- snd kv, fst kv)) counts"

definition scan_block :: "image \<Rightarrow> int \<Rightarrow> int \<Rightarrow> int \<Rightarrow> int \<Rightarrow> int \<Rightarrow> error + block" where
  "scan_block im block_size alpha_min_value origin_x origin_y bi =
     (let st = collect_block im block_size alpha_min_value origin_x origin_y;
          blk_color_coords = build_color_coords alpha_min_value (blk_pixels st)
      in case map_raise (color_entry_of blk_color_coords) (sorted_items (blk_color_counts st)) of
           Inl e \<Rightarrow> Inl e
         | Inr blk_counts_list \<Rightarrow>
             Inr \<lparr>b_index = bi, b_origin_x = origin_x, b_origin_y = origin_y,
                  b_actual_w = actual_w st, b_actual_h = actual_h st,
                  b_visible_pixels = visible st, b_skipped_pixels = skipped st,
                  b_unique_colors = int (length blk_counts_list),
                  b_color_counts = blk_counts_list\<rparr>)"

text \<open>
  The \<open>while True\<close> loop over the block index.  It has no bound of its own: \<open>None\<close> is
  the loop that never ends, \<open>Some (Inl e)\<close> an exception raised inside it.
\<close>

partial_function (option) block_loop ::
  "image \<Rightarrow> int \<Rightarrow> int \<Rightarrow> int \<Rightarrow> int \<Rightarrow> int \<Rightarrow> block list \<Rightarrow> (error + block list) option" where
  "block_loop im block_size alpha_min_value start_block_x actual_start_y bi row_blocks =
     (let origin_x = start_block_x + bi * block_size in
      if origin_x \<ge> width im then Some (Inr row_blocks)
      else (case scan_block im block_size alpha_min_value origin_x actual_start_y bi of
              Inl e \<Rightarrow> Some (Inl e)
            | Inr b \<Rightarrow>
                block_loop im block_size alpha_min_value start_block_x actual_start_y (bi + 1)
                  (if b_visible_pixels b > 0 then row_blocks @ [b] else row_blocks)))"

declare block_loop.simps [code]

text \<open>The trailing trim: blocks are popped from the end while less than half is visible.\<close>

definition sparse :: "int \<Rightarrow> block \<Rightarrow> bool" where
  "sparse block_size b \<longleftrightarrow>
     (of_int (b_visible_pixels b) / of_int (block_size * block_size) :: rat) < 1 / 2"

function trim_trailing :: "int \<Rightarrow> block list \<Rightarrow> error + block list" where
  "trim_trailing block_size row_blocks =
     (if row_blocks = [] then Inr []
      else if block_size * block_size = 0 then Inl ZeroDivisionError
      else if sparse block_size (last row_blocks)
           then trim_trailing block_size (butlast row_blocks)
           else Inr row_blocks)"
  by pat_completeness auto
termination
  by (relation "measure (\<lambda>(bs, xs). length xs)") auto

text \<open>Steps 1 and 2: the topmost row of the strip with a visible pixel, and its leftmost one.\<close>

definition find_row_anchor :: "image \<Rightarrow> int \<Rightarrow> int \<Rightarrow> int \<Rightarrow> (int \<times> int) option" where
  "find_row_anchor im start_y block_size alpha_min_value =
     (let search_range = min block_size (height im - start_y);
          topmost_y =
            first_some (\<lambda>dy.
              first_some (\<lambda>x_check. if alpha (px im x_check (start_y + dy)) \<ge> alpha_min_value
                                     then Some (start_y + dy) else None)
                (range_py (width im)))
              (range_py search_range)
      in case topmost_y of
           None \<Rightarrow> None
         | Some ty \<Rightarrow>
             (case first_some (\<lambda>x_search. if alpha (px im x_search ty) \<ge> alpha_min_value
                                           then Some x_search else None)
                     (range_py (width im)) of
                None \<Rightarrow> None
              | Some first_x \<Rightarrow> Some (first_x, ty)))"

text \<open>
  The outer \<open>option\<close> is termination; the inner one is the function's own
  \<open>Optional[Dict]\<close>, with every exception turned into \<open>None\<close> by its handler.
\<close>

definition scan_row_blocks :: "image \<Rightarrow> int \<Rightarrow> int \<Rightarrow> int \<Rightarrow> row option option" where
  "scan_row_blocks im start_y block_size alpha_min_value =
     (case find_row_anchor im start_y block_size alpha_min_value of
        None \<Rightarrow> Some None
      | Some (first_x, actual_start_y) \<Rightarrow>
          (case block_loop im block_size alpha_min_value first_x actual_start_y 0 [] of
             None \<Rightarrow> None
           | Some (Inl e) \<Rightarrow> Some None
           | Some (Inr row_blocks) \<Rightarrow>
               if row_blocks = [] then Some None
               else (case trim_trailing block_size row_blocks of
                       Inl e \<Rightarrow> Some None
                     | Inr kept \<Rightarrow>
                         if kept = [] then Some None
                         else Some (Some
                           \<lparr>r_block_size = block_size, r_blocks = kept,
                            r_total_blocks = int (length kept),
                            r_first_pixel = (first_x, actual_start_y),
                            r_last_pixel_visited =
                              (b_origin_x (last kept) + block_size - 1,
                               b_origin_y (last kept) + block_size - 1)\<rparr>))))"

section \<open>Grid assembler (png_to_svg.py, main)\<close>

text \<open>
  The rectangle elements and the canvas that \<open>main\<close> interpolates into the document it
  writes.  Every rectangle is written with \<open>width="1" height="1"\<close>.
\<close>

record rect =
  rect_x :: int
  rect_y :: int
  rect_fill :: string
  rect_fill_opacity :: rat

record svg =
  canvas_w :: int
  canvas_h :: int
  rects :: "rect list"

text \<open>
  What \<open>parser.parse_args(argv)\<close> does with the command line: it returns the namespace, or
  it ends the process itself, with exit code 2 after a usage error (a required option is
  missing, the block size is no integer, an option is unknown) and with exit code 0 after
  printing the help text.
\<close>

datatype arg_parse = Namespace | Usage_error | Help_exit

text \<open>
  What \<open>main\<close> depends on besides the pixels: what the parser does with the command line,
  whether the path is a file, whether the image opens (\<open>None\<close>: opening raises), the block
  size, whether the output can be written, the flag \<open>--quiet\<close>, and whether the standard
  output can encode the summary lines (they hold characters outside ASCII).
\<close>

record cli_args =
  parse_args :: arg_parse
  image_is_file :: bool
  image_opens :: "image option"
  arg_block_size :: int
  svg_out_writable :: bool
  quiet :: bool
  stdout_encodes :: bool

text \<open>
  A run ends with an exit code or with an uncaught exception (the process then ends with
  exit code 1); in both cases the document is given if one was written.
\<close>

datatype outcome = Exit int "svg option" | Uncaught error "svg option"

text \<open>
  \<open>round(v, 4)\<close> and \<open>int(v)\<close> on the exact quotient.  The quotients rounded here are
  \<open>a / 255\<close> for a byte \<open>a\<close>, which are never halfway between two multiples of \<open>0.0001\<close>.
\<close>

definition round4 :: "rat \<Rightarrow> rat" where
  "round4 v = of_int (round (v * 10000)) / 10000"

definition int_trunc :: "rat \<Rightarrow> int" where
  "int_trunc v = (if v \<ge> 0 then \<lfloor>v\<rfloor> else \<lceil>v\<rceil>)"

text \<open>The \<open>while current_y <= last_y\<close> loop; \<open>None\<close> is the loop that never ends.\<close>

partial_function (option) scan_all_rows ::
  "image \<Rightarrow> int \<Rightarrow> int \<Rightarrow> int \<Rightarrow> int \<Rightarrow> row list \<Rightarrow> row list option" where
  "scan_all_rows im block_size alpha_min_value last_y current_y all_rows =
     (if current_y \<le> last_y then
        (case scan_row_blocks im current_y block_size alpha_min_value of
           None \<Rightarrow> None
         | Some row_data \<Rightarrow>
             scan_all_rows im block_size alpha_min_value last_y (current_y + block_size)
               (case row_data of Some r \<Rightarrow> all_rows @ [r] | None \<Rightarrow> all_rows))
      else Some all_rows)"

declare scan_all_rows.simps [code]

text \<open>The body of the loop over blocks: \<open>None\<close> is \<open>continue\<close>.\<close>

definition block_rect :: "int \<Rightarrow> int \<Rightarrow> int \<Rightarrow> block \<Rightarrow> rect option" where
  "block_rect block_size left_ref top_ref rb =
     (case b_color_counts rb of
        [] \<Rightarrow> None
      | top_color # _ \<Rightarrow>
          Some \<lparr>rect_x = (b_origin_x rb - left_ref) div block_size,
                rect_y = (b_origin_y rb - top_ref) div block_size,
                rect_fill = ce_rgb_hex top_color,
                rect_fill_opacity = round4 (of_int (ce_a top_color) / 255)\<rparr>)"

definition generate_svg ::
  "int \<Rightarrow> (int \<times> int) option \<Rightarrow> (int \<times> int) option \<Rightarrow> int \<Rightarrow> row list \<Rightarrow> error + svg" where
  "generate_svg block_size leftmost_coord rightmost_coord last_y_coord all_rows =
     (case all_rows of
        [] \<Rightarrow> Inl IndexError
      | row0 # _ \<Rightarrow>
          (case r_blocks row0 of
             [] \<Rightarrow> Inl IndexError
           | blk0 # _ \<Rightarrow>
               (let left_ref = (case leftmost_coord of Some (lx, ly) \<Rightarrow> lx | None \<Rightarrow> b_origin_x blk0);
                    top_ref = b_origin_y blk0;
                    blocks = concat (map r_blocks all_rows)
                in if block_size = 0 \<and> (\<exists>rb \<in> set blocks. b_color_counts rb \<noteq> [])
                   then Inl ZeroDivisionError
                   else (case rightmost_coord of
                           None \<Rightarrow> Inl TypeError
                         | Some (right_ref, ry) \<Rightarrow>
                             if block_size = 0 then Inl ZeroDivisionError
                             else Inr
                               \<lparr>canvas_w =
                                  int_trunc (of_int (right_ref - left_ref) / of_int block_size) + 1,
                                canvas_h =
                                  int_trunc (of_int (last_y_coord - top_ref) / of_int block_size) + 1,
                                rects = List.map_filter (block_rect block_size left_ref top_ref)
                                          blocks\<rparr>))))"

text \<open>
  \<open>main\<close>, from the parsing of the command line to the summary it prints after the document
  is written.  The messages of the failure branches go to the standard error stream, which
  replaces what it cannot encode; the summary goes to the standard output, where printing
  the line with the canvas size raises \<open>UnicodeEncodeError\<close> if the stream cannot encode
  it.  \<open>None\<close>: the loop over the strips never ends.
\<close>

definition main :: "cli_args \<Rightarrow> outcome option" where
  "main args =
     (case parse_args args of
        Usage_error \<Rightarrow> Some (Exit 2 None)
      | Help_exit \<Rightarrow> Some (Exit 0 None)
      | Namespace \<Rightarrow>
       (if \<not> image_is_file args then Some (Exit 3 None)
        else (case image_opens args of
                None \<Rightarrow> Some (Exit 3 None)
              | Some im \<Rightarrow>
                  (case find_first_nontransparent_pixel im 128 of
                     None \<Rightarrow> Some (Exit 2 None)
                   | Some (x, y) \<Rightarrow>
                       (case find_last_nontransparent_pixel im 128 of
                          None \<Rightarrow> Some (Exit 2 None)
                        | Some (last_x, last_y) \<Rightarrow>
                            (case scan_all_rows im (arg_block_size args) 128 last_y y [] of
                               None \<Rightarrow> None
                             | Some all_rows \<Rightarrow>
                                 if all_rows = [] then Some (Exit 2 None)
                                 else (case generate_svg (arg_block_size args)
                                              (find_leftmost_nontransparent_pixel im 128)
                                              (find_rightmost_nontransparent_pixel im 128)
                                              last_y all_rows of
                                         Inl e \<Rightarrow> Some (Uncaught e None)
                                       | Inr doc \<Rightarrow>
                                           if \<not> svg_out_writable args then Some (Exit 3 None)
                                           else if \<not> quiet args \<and> \<not> stdout_encodes args
                                           then Some (Uncaught UnicodeEncodeError (Some doc))
                                           else Some (Exit 0 (Some doc)))))))))"

section \<open>Materializer, contract B (pixel_playground.py, _svg_to_editable_png)\<close>

text \<open>
  The parsed document as the function reads it: the \<open>viewBox\<close> attribute of the root and,
  for each \<open>rect\<close> element in document order, the five attributes it looks up (\<open>None\<close>: the
  attribute is absent).
\<close>

record rect_elem =
  a_x :: "string option"
  a_y :: "string option"
  a_width :: "string option"
  a_height :: "string option"
  a_fill :: "string option"

record svg_elem =
  viewBox :: "string option"
  rect_elems :: "rect_elem list"

type_synonym rgb = "int \<times> int \<times> int"

record raster =
  ras_w :: int
  ras_h :: int
  ras_px :: "int \<times> int \<Rightarrow> rgb"

text \<open>\<open>str.split()\<close> without arguments: the maximal runs of characters that are not white space.\<close>

fun split_acc :: "string \<Rightarrow> string \<Rightarrow> string list" where
  "split_acc cur [] = (if cur = [] then [] else [cur])"
| "split_acc cur (c # cs) =
     (if is_space c then (if cur = [] then split_acc [] cs else cur # split_acc [] cs)
      else split_acc (cur @ [c]) cs)"

definition py_split :: "string \<Rightarrow> string list" where
  "py_split s = split_acc [] s"

text \<open>
  Storing through the pixel accessor of the new image: a negative index counts from the
  far edge, an index outside the image raises, and each component is clipped to a byte.
\<close>

definition clip8 :: "int \<Rightarrow> int" where
  "clip8 v = (if v < 0 then 0 else if v > 255 then 255 else v)"

definition putpixel :: "raster \<Rightarrow> int \<Rightarrow> int \<Rightarrow> rgb \<Rightarrow> error + raster" where
  "putpixel img x y color =
     (let x' = (if x < 0 then ras_w img + x else x);
          y' = (if y < 0 then ras_h img + y else y)
      in if x' < 0 \<or> x' \<ge> ras_w img \<or> y' < 0 \<or> y' \<ge> ras_h img then Inl IndexError
         else (case color of (r, g, b) \<Rightarrow>
                 Inr (img\<lparr>ras_px := (ras_px img)((x', y') := (clip8 r, clip8 g, clip8 b))\<rparr>)))"

text \<open>The cells of the two nested \<open>for\<close> loops, in the order they are written.\<close>

definition rect_cells :: "int \<Rightarrow> int \<Rightarrow> int \<Rightarrow> int \<Rightarrow> int \<Rightarrow> int \<Rightarrow> (int \<times> int) list" where
  "rect_cells x y w h vb_width vb_height =
     concat (map (\<lambda>py. map (\<lambda>px. (px, py)) (range_from x (min (x + w) vb_width)))
               (range_from y (min (y + h) vb_height)))"

text \<open>Painting stops at the first store that raises; what was stored before stays.\<close>

fun paint :: "raster \<Rightarrow> (int \<times> int) list \<Rightarrow> rgb \<Rightarrow> raster" where
  "paint img [] color = img"
| "paint img (c # cs) color =
     (case putpixel img (fst c) (snd c) color of
        Inl e \<Rightarrow> img
      | Inr img' \<Rightarrow> paint img' cs color)"

text \<open>
  \<open>int(float(rect.get(name, default)))\<close>.  Reading a number from a string is Python's
  \<open>float\<close> followed by \<open>int\<close>; it is the parameter \<open>num\<close> (\<open>None\<close>: it raises).
\<close>

definition attr_num :: "(string \<Rightarrow> int option) \<Rightarrow> string option \<Rightarrow> int \<Rightarrow> int option" where
  "attr_num num a dflt = (case a of None \<Rightarrow> Some dflt | Some s \<Rightarrow> num s)"

definition fill_color :: "string \<Rightarrow> error + rgb" where
  "fill_color fill =
     (if take 1 fill = ''#'' \<and> length fill = 7 then
        (case int16 (take 2 (drop 1 fill)) of
           Inl e \<Rightarrow> Inl e
         | Inr r \<Rightarrow>
             (case int16 (take 2 (drop 3 fill)) of
                Inl e \<Rightarrow> Inl e
              | Inr g \<Rightarrow>
                  (case int16 (take 2 (drop 5 fill)) of
                     Inl e \<Rightarrow> Inl e
                   | Inr b \<Rightarrow> Inr (r, g, b))))
      else Inr (0, 0, 0))"

text \<open>One turn of the loop over the rectangles; any exception leaves the turn.\<close>

definition draw_rect :: "(string \<Rightarrow> int option) \<Rightarrow> int \<Rightarrow> int \<Rightarrow> raster \<Rightarrow> rect_elem \<Rightarrow> raster" where
  "draw_rect num vb_width vb_height img rect =
     (case attr_num num (a_x rect) 0 of
        None \<Rightarrow> img
      | Some x \<Rightarrow>
     (case attr_num num (a_y rect) 0 of
        None \<Rightarrow> img
      | Some y \<Rightarrow>
     (case attr_num num (a_width rect) 1 of
        None \<Rightarrow> img
      | Some w \<Rightarrow>
     (case attr_num num (a_height rect) 1 of
        None \<Rightarrow> img
      | Some h \<Rightarrow>
     (case fill_color (case a_fill rect of None \<Rightarrow> ''#000000'' | Some f \<Rightarrow> f) of
        Inl e \<Rightarrow> img
      | Inr color \<Rightarrow> paint img (rect_cells x y w h vb_width vb_height) color)))))"

text \<open>\<open>Image.new('RGB', (w, h), color='white')\<close>.\<close>

definition new_image :: "int \<Rightarrow> int \<Rightarrow> raster" where
  "new_image w h = \<lparr>ras_w = w, ras_h = h, ras_px = (\<lambda>c. (255, 255, 255))\<rparr>"

text \<open>
  The document is \<open>None\<close> when parsing the file raises.  The block size is an argument the
  function never reads.
\<close>

definition svg_to_editable_png ::
  "(string \<Rightarrow> int option) \<Rightarrow> svg_elem option \<Rightarrow> int \<Rightarrow> raster option" where
  "svg_to_editable_png num doc block_size =
     (case doc of
        None \<Rightarrow> None
      | Some svg_root \<Rightarrow>
          (case viewBox svg_root of
             None \<Rightarrow> None
           | Some viewbox \<Rightarrow>
               if viewbox = [] then None
               else (let vb_parts = py_split viewbox in
                     if length vb_parts \<le> 2 then None
                     else (case num (vb_parts ! 2) of
                             None \<Rightarrow> None
                           | Some vb_width \<Rightarrow>
                               if length vb_parts \<le> 3 then None
                               else (case num (vb_parts ! 3) of
                                       None \<Rightarrow> None
                                     | Some vb_height \<Rightarrow>
                                         if vb_width < 0 \<or> vb_height < 0 then None
                                         else Some (foldl (draw_rect num vb_width vb_height)
                                                      (new_image vb_width vb_height)
                                                      (rect_elems svg_root)))))))"

subsection \<open>The document written by main, as the materializer parses it\<close>






text \<open>
  A reader of plain decimal numerals (an optional minus sign, then digits), on which it
  returns what \<open>int(float(s))\<close> returns as long as the number has at most 15 digits.
\<close>

definition dec_val :: "char \<Rightarrow> int option" where
  "dec_val c = (let n = (of_char c :: nat) in if 48 \<le> n \<and> n \<le> 57 then Some (int n - 48) else None)"

fun dec_digits :: "int \<Rightarrow> string \<Rightarrow> int option" where
  "dec_digits acc [] = Some acc"
| "dec_digits acc (c # cs) =
     (case dec_val c of None \<Rightarrow> None | Some d \<Rightarrow> dec_digits (10 * acc + d) cs)"

definition plain_decimal :: "string \<Rightarrow> int option" where
  "plain_decimal s =
     (case s of
        [] \<Rightarrow> None
      | c # cs \<Rightarrow>
          if c = CHR ''-'' then (if cs = [] then None else map_option uminus (dec_digits 0 cs))
          else dec_digits 0 s)"

section \<open>Block size estimator: boundary contrast (pixel_playground.py)\<close>

text \<open>
  The Sobel gradient magnitudes come from a library; the array \<open>grad_magnitude\<close> (indexed
  \<open>[y, x]\<close>) and its shape are the arguments here, and numbers are reals.
\<close>

definition on_boundary :: "int \<Rightarrow> int \<Rightarrow> bool" where
  "on_boundary block_size v \<longleftrightarrow> v mod block_size = 0 \<or> v mod block_size = block_size - 1"

definition mean_or_zero :: "real list \<Rightarrow> real" where
  "mean_or_zero xs = (if xs = [] then 0 else sum_list xs / of_nat (length xs))"

definition positions :: "int \<Rightarrow> int \<Rightarrow> (int \<times> int) list" where
  "positions h w = concat (map (\<lambda>y. map (\<lambda>x. (y, x)) (range_py w)) (range_py h))"

definition compute_gradient_at_positions ::
  "(int \<Rightarrow> int \<Rightarrow> real) \<Rightarrow> int \<Rightarrow> int \<Rightarrow> int \<Rightarrow> error + real \<times> real" where
  "compute_gradient_at_positions grad_magnitude h w block_size =
     (if block_size = 0 \<and> positions h w \<noteq> [] then Inl ZeroDivisionError
      else (let boundary_gradients =
                  map (\<lambda>(y, x). grad_magnitude y x)
                    (filter (\<lambda>(y, x). on_boundary block_size x \<or> on_boundary block_size y)
                       (positions h w));
                inside_gradients =
                  map (\<lambda>(y, x). grad_magnitude y x)
                    (filter (\<lambda>(y, x). \<not> (on_boundary block_size x \<or> on_boundary block_size y))
                       (positions h w))
            in Inr (mean_or_zero boundary_gradients, mean_or_zero inside_gradients)))"

definition compute_boundary_contrast ::
  "(int \<Rightarrow> int \<Rightarrow> real) \<Rightarrow> int \<Rightarrow> int \<Rightarrow> int \<Rightarrow> error + real" where
  "compute_boundary_contrast grad_magnitude h w block_size =
     (case compute_gradient_at_positions grad_magnitude h w block_size of
        Inl e \<Rightarrow> Inl e
      | Inr (avg_boundary, avg_inside) \<Rightarrow>
          if avg_inside < 0.001
          then Inr (if avg_boundary > 0 then avg_boundary / 0.001 else 1.0)
          else Inr (avg_boundary / avg_inside))"

section \<open>Concrete images\<close>

text \<open>A 32 by 32 image, transparent except for a 16 by 16 green square at (8, 8).\<close>

definition green_square :: image where
  "green_square =
     \<lparr>width = 32, height = 32,
      px = (\<lambda>x y. if 8 \<le> x \<and> x < 24 \<and> 8 \<le> y \<and> y < 24 then (0, 255, 0, 255)
                   else (0, 0, 0, 0))\<rparr>"

text \<open>
  A 2 by 6 image: one green pixel in row 0, two red pixels in row 3, a red and a blue
  pixel in row 4; all other pixels are transparent.
\<close>

definition stagger :: image where
  "stagger =
     \<lparr>width = 2, height = 6,
      px = (\<lambda>x y. if (x, y) = (0, 0) then (0, 255, 0, 255)
                   else if (x, y) = (0, 3) \<or> (x, y) = (1, 3) \<or> (x, y) = (0, 4) then (255, 0, 0, 255)
                   else if (x, y) = (1, 4) then (0, 0, 255, 255)
                   else (0, 0, 0, 0))\<rparr>"

text \<open>A single opaque white pixel.\<close>

definition dot :: image where
  "dot = \<lparr>width = 1, height = 1, px = (\<lambda>x y. (255, 255, 255, 255))\<rparr>"

text \<open>A 2 by 2 image with one visible pixel, and a 2 by 2 image with none.\<close>

definition speck :: image where
  "speck =
     \<lparr>width = 2, height = 2,
      px = (\<lambda>x y. if (x, y) = (0, 0) then (255, 0, 0, 255) else (0, 0, 0, 0))\<rparr>"

definition blank :: image where
  "blank = \<lparr>width = 2, height = 2, px = (\<lambda>x y. (7, 7, 7, 0))\<rparr>"





text \<open>
  A strip of height 2 and width 12 for block size 2: the blocks at columns 2 and 6 are
  full, the blocks at columns 0, 4, 8 and 10 hold one visible pixel each.
\<close>

definition ragged :: image where
  "ragged =
     \<lparr>width = 12, height = 2,
      px = (\<lambda>x y. if x \<in> set [2, 3, 6, 7] \<or> (y = 0 \<and> x \<in> set [0, 4, 8, 10])
                   then (10, 20, 30, 255) else (0, 0, 0, 0))\<rparr>"

text \<open>
  A 6 by 6 image for block size 2 with four full blocks: a red one at (0, 0) and a blue one
  at (4, 0) in the first strip, nothing in the second strip, a green one at (1, 4) and a
  yellow one at (3, 4) in the third strip; the run on it, and the document it writes.
\<close>

definition quilt :: image where
  "quilt =
     \<lparr>width = 6, height = 6,
      px = (\<lambda>x y. if y \<in> set [0, 1] \<and> x \<in> set [0, 1] then (255, 0, 0, 255)
                   else if y \<in> set [0, 1] \<and> x \<in> set [4, 5] then (0, 0, 255, 255)
                   else if y \<in> set [4, 5] \<and> x \<in> set [1, 2] then (0, 255, 0, 255)
                   else if y \<in> set [4, 5] \<and> x \<in> set [3, 4] then (255, 255, 0, 255)
                   else (0, 0, 0, 0))\<rparr>"

definition quilt_args :: cli_args where
  "quilt_args =
     \<lparr>parse_args = Namespace, image_is_file = True, image_opens = Some quilt,
      arg_block_size = 2, svg_out_writable = True, quiet = False, stdout_encodes = True\<rparr>"

definition quilt_doc :: svg where
  "quilt_doc =
     \<lparr>canvas_w = 3, canvas_h = 3,
      rects = [\<lparr>rect_x = 0, rect_y = 0, rect_fill = ''#FF0000'', rect_fill_opacity = 1\<rparr>,
               \<lparr>rect_x = 2, rect_y = 0, rect_fill = ''#0000FF'', rect_fill_opacity = 1\<rparr>,
               \<lparr>rect_x = 0, rect_y = 2, rect_fill = ''#00FF00'', rect_fill_opacity = 1\<rparr>,
               \<lparr>rect_x = 1, rect_y = 2, rect_fill = ''#FFFF00'', rect_fill_opacity = 1\<rparr>]\<rparr>"

text \<open>
  \<open>stagger\<close> widened by two columns that hold two yellow pixels in row 3; the run on it
  with block size 2, and the document it writes: a red and a yellow rectangle from the row
  found at row 3, and a blue rectangle from the row found at row 4.
\<close>

definition overlay :: image where
  "overlay =
     \<lparr>width = 4, height = 6,
      px = (\<lambda>x y. if (x, y) = (0, 0) then (0, 255, 0, 255)
                   else if (x, y) = (0, 3) \<or> (x, y) = (1, 3) \<or> (x, y) = (0, 4) then (255, 0, 0, 255)
                   else if (x, y) = (2, 3) \<or> (x, y) = (3, 3) then (255, 255, 0, 255)
                   else if (x, y) = (1, 4) then (0, 0, 255, 255)
                   else (0, 0, 0, 0))\<rparr>"

definition overlay_args :: cli_args where
  "overlay_args =
     \<lparr>parse_args = Namespace, image_is_file = True, image_opens = Some overlay,
      arg_block_size = 2, svg_out_writable = True, quiet = False, stdout_encodes = True\<rparr>"

definition overlay_doc :: svg where
  "overlay_doc =
     \<lparr>canvas_w = 2, canvas_h = 1,
      rects = [\<lparr>rect_x = 0, rect_y = 0, rect_fill = ''#FF0000'', rect_fill_opacity = 1\<rparr>,
               \<lparr>rect_x = 1, rect_y = 0, rect_fill = ''#FFFF00'', rect_fill_opacity = 1\<rparr>,
               \<lparr>rect_x = 0, rect_y = 0, rect_fill = ''#0000FF'', rect_fill_opacity = 1\<rparr>]\<rparr>"

text \<open>The gradient magnitudes of a flat image: zero everywhere.\<close>

definition flat_gradient :: "int \<Rightarrow> int \<Rightarrow> real" where
  "flat_gradient y x = 0"

text \<open>
  A parsed document with a one by one view box and one rectangle whose fill has seven
  characters and starts with \<open>#\<close>, but holds no hexadecimal digits.
\<close>

definition bad_fill_doc :: svg_elem where
  "bad_fill_doc =
     \<lparr>viewBox = Some ''0 0 1 1'',
      rect_elems = [\<lparr>a_x = Some ''0'', a_y = Some ''0'', a_width = Some ''1'',
                      a_height = Some ''1'', a_fill = Some ''#GGGGGG''\<rparr>]\<rparr>"

section \<open>Notions used in the statements\<close>

text \<open>A pixel of the image that the threshold \<open>t\<close> counts as visible.\<close>

definition visible_in :: "image \<Rightarrow> int \<Rightarrow> int \<Rightarrow> int \<Rightarrow> bool" where
  "visible_in im t x y \<longleftrightarrow> 0 \<le> x \<and> x < width im \<and> 0 \<le> y \<and> y < height im \<and> t \<le> alpha (px im x y)"

text \<open>
  The cells that the two nested loops of a block visit, in the order they visit them, and
  the colours of the visible ones.
\<close>

definition vis_cell :: "image \<Rightarrow> int \<Rightarrow> int \<times> int \<Rightarrow> bool" where
  "vis_cell im t c \<longleftrightarrow> t \<le> alpha (px im (fst c) (snd c))"

definition line_cells :: "image \<Rightarrow> int \<Rightarrow> int \<Rightarrow> int \<Rightarrow> (int \<times> int) list" where
  "line_cells im bs ox sy =
     map (\<lambda>dx. (ox + dx, sy)) (takeWhile (\<lambda>dx. \<not> ox + dx \<ge> width im) (range_py bs))"

definition block_cells :: "image \<Rightarrow> int \<Rightarrow> int \<Rightarrow> int \<Rightarrow> (int \<times> int) list" where
  "block_cells im bs ox oy =
     concat (map (\<lambda>dy. line_cells im bs ox (oy + dy))
               (takeWhile (\<lambda>dy. \<not> oy + dy \<ge> height im) (range_py bs)))"

definition visible_colors :: "image \<Rightarrow> int \<Rightarrow> int \<Rightarrow> int \<Rightarrow> int \<Rightarrow> rgba list" where
  "visible_colors im bs t ox oy =
     map (\<lambda>c. px im (fst c) (snd c)) (filter (vis_cell im t) (block_cells im bs ox oy))"

text \<open>The dictionary after counting the keys \<open>ks\<close> one by one, starting from \<open>d\<close>.\<close>

definition count_colors :: "(string \<times> int) list \<Rightarrow> string list \<Rightarrow> (string \<times> int) list" where
  "count_colors d ks = foldl (\<lambda>d k. dict_incr k d) d ks"

text \<open>
  The block that \<open>scan_block\<close> returns (it never raises, see \<open>scan_block_block_at\<close>), and
  the list the block loop builds from index \<open>bi\<close> on when the block size is positive.
\<close>

definition block_at :: "image \<Rightarrow> int \<Rightarrow> int \<Rightarrow> int \<Rightarrow> int \<Rightarrow> int \<Rightarrow> block" where
  "block_at im bs t ox oy bi = projr (scan_block im bs t ox oy bi)"

function blocks_from :: "image \<Rightarrow> int \<Rightarrow> int \<Rightarrow> int \<Rightarrow> int \<Rightarrow> int \<Rightarrow> block list" where
  "blocks_from im bs t fx y bi =
     (if bs \<le> 0 \<or> fx + bi * bs \<ge> width im then []
      else (if b_visible_pixels (block_at im bs t (fx + bi * bs) y bi) > 0
            then [block_at im bs t (fx + bi * bs) y bi] else [])
           @ blocks_from im bs t fx y (bi + 1))"
  by pat_completeness auto
termination
  by (relation "measure (\<lambda>(im, bs, t, fx, y, bi). nat (width im - (fx + bi * bs)))")
     (auto simp: algebra_simps)

declare blocks_from.simps [simp del]

declare trim_trailing.simps [simp del]

text \<open>
  The colours of a multiset with their multiplicities, by falling multiplicity and, for
  equal multiplicities, by rising colour string.
\<close>

definition ranked :: "string multiset \<Rightarrow> (string \<times> int) list" where
  "ranked M = sort_key (\<lambda>kv. (- snd kv, fst kv))
               (map (\<lambda>k. (k, int (count M k))) (sorted_list_of_set (set_mset M)))"

text \<open>
  The rows the loop of \<open>main\<close> collects from the strip starting at \<open>cur\<close> on when the block
  size is positive, and the origin row of a row's blocks.
\<close>

function rows_from :: "image \<Rightarrow> int \<Rightarrow> int \<Rightarrow> int \<Rightarrow> int \<Rightarrow> row list" where
  "rows_from im bs t last_y cur =
     (if bs \<le> 0 \<or> cur > last_y then []
      else (case scan_row_blocks im cur bs t of Some (Some r) \<Rightarrow> [r] | _ \<Rightarrow> [])
           @ rows_from im bs t last_y (cur + bs))"
  by pat_completeness auto
termination
  by (relation "measure (\<lambda>(im, bs, t, last_y, cur). nat (last_y + 1 - cur))") auto

declare rows_from.simps [simp del]

definition row_y :: "row \<Rightarrow> int" where
  "row_y r = snd (r_first_pixel r)"

text \<open>The reference row of the grid: the origin row of the first block of the first row.\<close>

definition top_ref_of :: "row list \<Rightarrow> int" where
  "top_ref_of rows = b_origin_y (hd (r_blocks (hd rows)))"


text \<open>
  The positions of an \<open>h\<close> by \<open>w\<close> array on a tile boundary and inside a tile, as pairs
  \<open>(y, x)\<close>, and the average of the gradient magnitude over a set of positions (0 over the
  empty set).
\<close>

definition boundary_cells :: "int \<Rightarrow> int \<Rightarrow> int \<Rightarrow> (int \<times> int) set" where
  "boundary_cells h w bs =
     {(y, x). 0 \<le> y \<and> y < h \<and> 0 \<le> x \<and> x < w \<and> (on_boundary bs x \<or> on_boundary bs y)}"

definition inside_cells :: "int \<Rightarrow> int \<Rightarrow> int \<Rightarrow> (int \<times> int) set" where
  "inside_cells h w bs =
     {(y, x). 0 \<le> y \<and> y < h \<and> 0 \<le> x \<and> x < w \<and> \<not> (on_boundary bs x \<or> on_boundary bs y)}"

definition average :: "(int \<Rightarrow> int \<Rightarrow> real) \<Rightarrow> (int \<times> int) set \<Rightarrow> real" where
  "average g S = (if S = {} then 0 else (\<Sum>(y, x)\<in>S. g y x) / real (card S))"

text \<open>The fill a rectangle element is drawn with: \<open>rect.get('fill', '#000000')\<close>.\<close>

definition fill_attr :: "rect_elem \<Rightarrow> string" where
  "fill_attr rect = (case a_fill rect of None \<Rightarrow> ''#000000'' | Some f \<Rightarrow> f)"


section \<open>Ranges, early-exit loops and the boundary scanners\<close>

lemma set_range_py: "set (range_py n) = {0..<n}"
  by (auto simp: range_py_def)

lemma first_some_None_iff: "first_some f xs = None \<longleftrightarrow> (\<forall>x\<in>set xs. f x = None)"
  by (induction xs) (auto split: option.splits)

lemma first_some_SomeD:
  "first_some f xs = Some r \<Longrightarrow>
     \<exists>ys x zs. xs = ys @ x # zs \<and> f x = Some r \<and> (\<forall>y\<in>set ys. f y = None)"
proof (induction xs)
  case Nil
  then show ?case by simp
next
  case (Cons a xs)
  show ?case
  proof (cases "f a")
    case None
    with Cons obtain ys x zs where "xs = ys @ x # zs" "f x = Some r" "\<forall>y\<in>set ys. f y = None"
      by auto
    with None have "a # xs = (a # ys) @ x # zs \<and> f x = Some r \<and> (\<forall>y\<in>set (a # ys). f y = None)"
      by simp
    then show ?thesis by blast
  next
    case (Some v)
    with Cons.prems have "a # xs = [] @ a # xs \<and> f a = Some r \<and> (\<forall>y\<in>set []. f y = None)"
      by simp
    then show ?thesis by blast
  qed
qed

lemma range_py_split:
  assumes "range_py n = ys @ x # zs"
  shows "0 \<le> x \<and> x < n \<and> set ys = {0..<x} \<and> set zs = {x<..<n}"
proof -
  have s: "sorted (ys @ x # zs)" and d: "distinct (ys @ x # zs)"
    and e: "set (ys @ x # zs) = {0..<n}"
    using assms[symmetric] by (simp_all add: range_py_def) auto
  from s have le: "\<forall>y\<in>set ys. y \<le> x" and ge: "\<forall>z\<in>set zs. x \<le> z"
    by (auto simp: sorted_append)
  from d have ne: "x \<notin> set ys" "x \<notin> set zs" "set ys \<inter> set zs = {}" by auto
  have x: "0 \<le> x \<and> x < n" using e by auto
  have "set ys = {0..<x}"
  proof (intro set_eqI iffI)
    fix y assume "y \<in> set ys"
    then show "y \<in> {0..<x}" using le ne e by (metis (no_types, lifting) UnCI atLeastLessThan_iff order_less_le set_append)
  next
    fix y assume y: "y \<in> {0..<x}"
    then have "y \<in> set (ys @ x # zs)" using e x by auto
    then show "y \<in> set ys" using y ge by auto
  qed
  moreover have "set zs = {x<..<n}"
  proof (intro set_eqI iffI)
    fix z assume z: "z \<in> set zs"
    then have "z \<in> {0..<n}" using e by auto
    then show "z \<in> {x<..<n}" using ge ne z by (metis atLeastLessThan_iff greaterThanLessThan_iff order_less_le)
  next
    fix z assume z: "z \<in> {x<..<n}"
    then have "z \<in> set (ys @ x # zs)" using e x by auto
    then show "z \<in> set zs" using z le by auto
  qed
  ultimately show ?thesis using x by simp
qed

lemma first_some_range_SomeD:
  assumes "first_some f (range_py n) = Some r"
  shows "\<exists>k. 0 \<le> k \<and> k < n \<and> f k = Some r \<and> (\<forall>k'. 0 \<le> k' \<and> k' < k \<longrightarrow> f k' = None)"
proof -
  from first_some_SomeD[OF assms] obtain ys x zs where
    *: "range_py n = ys @ x # zs" "f x = Some r" "\<forall>y\<in>set ys. f y = None" by blast
  from range_py_split[OF *(1)] * show ?thesis by auto
qed

lemma first_some_rev_range_SomeD:
  assumes "first_some f (rev (range_py n)) = Some r"
  shows "\<exists>k. 0 \<le> k \<and> k < n \<and> f k = Some r \<and> (\<forall>k'. k < k' \<and> k' < n \<longrightarrow> f k' = None)"
proof -
  from first_some_SomeD[OF assms] obtain ys x zs where
    *: "rev (range_py n) = ys @ x # zs" "f x = Some r" "\<forall>y\<in>set ys. f y = None" by blast
  from *(1) have "range_py n = rev zs @ x # rev ys"
    by (metis append.assoc append_Cons append_Nil rev.simps(2) rev_append rev_rev_ident)
  from range_py_split[OF this] * show ?thesis by auto
qed

lemma first_some_range_NoneD:
  "first_some f (range_py n) = None \<Longrightarrow> 0 \<le> k \<Longrightarrow> k < n \<Longrightarrow> f k = None"
  by (simp add: first_some_None_iff set_range_py)

lemma first_some_rev_range_NoneD:
  "first_some f (rev (range_py n)) = None \<Longrightarrow> 0 \<le> k \<Longrightarrow> k < n \<Longrightarrow> f k = None"
  by (simp add: first_some_None_iff set_range_py)

lemma find_first_SomeD:
  assumes "find_first_nontransparent_pixel im t = Some (x, y)"
  shows "visible_in im t x y \<and> (\<forall>x' y'. visible_in im t x' y' \<longrightarrow> y \<le> y')"
proof -
  from first_some_range_SomeD[OF assms[unfolded find_first_nontransparent_pixel_def]]
  obtain k where k: "0 \<le> k" "k < height im"
    "first_some (\<lambda>x. if t \<le> alpha (px im x k) then Some (x, k) else None) (range_py (width im)) = Some (x, y)"
    "\<forall>k'. 0 \<le> k' \<and> k' < k \<longrightarrow>
       first_some (\<lambda>x. if t \<le> alpha (px im x k') then Some (x, k') else None) (range_py (width im)) = None"
    by blast
  from first_some_range_SomeD[OF k(3)] obtain j where j: "0 \<le> j" "j < width im"
    "(if t \<le> alpha (px im j k) then Some (j, k) else None) = Some (x, y)" by blast
  from j(3) have "x = j" "y = k" "t \<le> alpha (px im j k)" by (auto split: if_splits)
  moreover have "y \<le> y'" if "visible_in im t x' y'" for x' y'
  proof (rule ccontr)
    assume "\<not> y \<le> y'"
    with that k(4) \<open>y = k\<close> have "first_some (\<lambda>x. if t \<le> alpha (px im x y') then Some (x, y') else None) (range_py (width im)) = None"
      by (auto simp: visible_in_def)
    from first_some_range_NoneD[OF this, of x'] that show False
      by (simp add: visible_in_def)
  qed
  ultimately show ?thesis using k j by (auto simp: visible_in_def)
qed

lemma find_last_SomeD:
  assumes "find_last_nontransparent_pixel im t = Some (x, y)"
  shows "visible_in im t x y \<and> (\<forall>x' y'. visible_in im t x' y' \<longrightarrow> y' \<le> y)"
proof -
  from first_some_rev_range_SomeD[OF assms[unfolded find_last_nontransparent_pixel_def]]
  obtain k where k: "0 \<le> k" "k < height im"
    "first_some (\<lambda>x. if t \<le> alpha (px im x k) then Some (x, k) else None) (rev (range_py (width im))) = Some (x, y)"
    "\<forall>k'. k < k' \<and> k' < height im \<longrightarrow>
       first_some (\<lambda>x. if t \<le> alpha (px im x k') then Some (x, k') else None) (rev (range_py (width im))) = None"
    by blast
  from first_some_rev_range_SomeD[OF k(3)] obtain j where j: "0 \<le> j" "j < width im"
    "(if t \<le> alpha (px im j k) then Some (j, k) else None) = Some (x, y)" by blast
  from j(3) have "x = j" "y = k" "t \<le> alpha (px im j k)" by (auto split: if_splits)
  moreover have "y' \<le> y" if "visible_in im t x' y'" for x' y'
  proof (rule ccontr)
    assume "\<not> y' \<le> y"
    with that k(4) \<open>y = k\<close> have "first_some (\<lambda>x. if t \<le> alpha (px im x y') then Some (x, y') else None) (rev (range_py (width im))) = None"
      by (auto simp: visible_in_def)
    from first_some_rev_range_NoneD[OF this, of x'] that show False
      by (simp add: visible_in_def)
  qed
  ultimately show ?thesis using k j by (auto simp: visible_in_def)
qed

lemma find_leftmost_SomeD:
  assumes "find_leftmost_nontransparent_pixel im t = Some (x, y)"
  shows "visible_in im t x y \<and> (\<forall>x' y'. visible_in im t x' y' \<longrightarrow> x \<le> x')"
proof -
  from first_some_range_SomeD[OF assms[unfolded find_leftmost_nontransparent_pixel_def]]
  obtain k where k: "0 \<le> k" "k < width im"
    "first_some (\<lambda>y. if t \<le> alpha (px im k y) then Some (k, y) else None) (range_py (height im)) = Some (x, y)"
    "\<forall>k'. 0 \<le> k' \<and> k' < k \<longrightarrow>
       first_some (\<lambda>y. if t \<le> alpha (px im k' y) then Some (k', y) else None) (range_py (height im)) = None"
    by blast
  from first_some_range_SomeD[OF k(3)] obtain j where j: "0 \<le> j" "j < height im"
    "(if t \<le> alpha (px im k j) then Some (k, j) else None) = Some (x, y)" by blast
  from j(3) have "x = k" "y = j" "t \<le> alpha (px im k j)" by (auto split: if_splits)
  moreover have "x \<le> x'" if "visible_in im t x' y'" for x' y'
  proof (rule ccontr)
    assume "\<not> x \<le> x'"
    with that k(4) \<open>x = k\<close> have "first_some (\<lambda>y. if t \<le> alpha (px im x' y) then Some (x', y) else None) (range_py (height im)) = None"
      by (auto simp: visible_in_def)
    from first_some_range_NoneD[OF this, of y'] that show False
      by (simp add: visible_in_def)
  qed
  ultimately show ?thesis using k j by (auto simp: visible_in_def)
qed

lemma find_rightmost_SomeD:
  assumes "find_rightmost_nontransparent_pixel im t = Some (x, y)"
  shows "visible_in im t x y \<and> (\<forall>x' y'. visible_in im t x' y' \<longrightarrow> x' \<le> x)"
proof -
  from first_some_rev_range_SomeD[OF assms[unfolded find_rightmost_nontransparent_pixel_def]]
  obtain k where k: "0 \<le> k" "k < width im"
    "first_some (\<lambda>y. if t \<le> alpha (px im k y) then Some (k, y) else None) (range_py (height im)) = Some (x, y)"
    "\<forall>k'. k < k' \<and> k' < width im \<longrightarrow>
       first_some (\<lambda>y. if t \<le> alpha (px im k' y) then Some (k', y) else None) (range_py (height im)) = None"
    by blast
  from first_some_range_SomeD[OF k(3)] obtain j where j: "0 \<le> j" "j < height im"
    "(if t \<le> alpha (px im k j) then Some (k, j) else None) = Some (x, y)" by blast
  from j(3) have "x = k" "y = j" "t \<le> alpha (px im k j)" by (auto split: if_splits)
  moreover have "x' \<le> x" if "visible_in im t x' y'" for x' y'
  proof (rule ccontr)
    assume "\<not> x' \<le> x"
    with that k(4) \<open>x = k\<close> have "first_some (\<lambda>y. if t \<le> alpha (px im x' y) then Some (x', y) else None) (range_py (height im)) = None"
      by (auto simp: visible_in_def)
    from first_some_range_NoneD[OF this, of y'] that show False
      by (simp add: visible_in_def)
  qed
  ultimately show ?thesis using k j by (auto simp: visible_in_def)
qed

lemma find_row_anchor_SomeD:
  assumes "find_row_anchor im sy bs t = Some (fx, ty)"
  shows "0 < bs \<and> sy \<le> ty \<and> ty < sy + bs \<and> ty < height im
       \<and> 0 \<le> fx \<and> fx < width im \<and> t \<le> alpha (px im fx ty)
       \<and> (\<forall>x y. 0 \<le> x \<and> x < width im \<and> sy \<le> y \<and> y < ty \<longrightarrow> \<not> t \<le> alpha (px im x y))"
proof -
  let ?n = "min bs (height im - sy)"
  let ?g = "\<lambda>dy. first_some (\<lambda>x_check. if alpha (px im x_check (sy + dy)) \<ge> t
                                     then Some (sy + dy) else None) (range_py (width im))"
  from assms obtain ty' where top: "first_some ?g (range_py ?n) = Some ty'"
    by (auto simp: find_row_anchor_def Let_def split: option.splits)
  with assms have fx: "first_some (\<lambda>x_search. if alpha (px im x_search ty') \<ge> t
                                           then Some x_search else None) (range_py (width im)) = Some fx"
    and ty: "ty' = ty"
    by (auto simp: find_row_anchor_def Let_def split: option.splits)
  from first_some_range_SomeD[OF top] obtain k where k: "0 \<le> k" "k < ?n" "?g k = Some ty'"
    "\<forall>k'. 0 \<le> k' \<and> k' < k \<longrightarrow> ?g k' = None" by blast
  from first_some_range_SomeD[OF k(3)] obtain j where
    "(if alpha (px im j (sy + k)) \<ge> t then Some (sy + k) else None) = Some ty'" by blast
  then have tyk: "ty = sy + k" using ty by (auto split: if_splits)
  from first_some_range_SomeD[OF fx] obtain i where i: "0 \<le> i" "i < width im"
    "(if alpha (px im i ty') \<ge> t then Some i else None) = Some fx" by blast
  then have "fx = i" "t \<le> alpha (px im i ty)" using ty by (auto split: if_splits)
  moreover have "\<not> t \<le> alpha (px im x y)" if "0 \<le> x" "x < width im" "sy \<le> y" "y < ty" for x y
  proof -
    have "?g (y - sy) = None" using k(4)[rule_format, of "y - sy"] that tyk by simp
    from first_some_range_NoneD[OF this, of x] that show ?thesis
      by (simp split: if_splits)
  qed
  ultimately show ?thesis using k i tyk by auto
qed

lemma find_row_anchor_visible_line:
  assumes "0 < bs" "0 \<le> x" "x < width im" "y < height im" "t \<le> alpha (px im x y)"
  shows "\<exists>fx. find_row_anchor im y bs t = Some (fx, y)"
proof -
  let ?n = "min bs (height im - y)"
  let ?g = "\<lambda>dy. first_some (\<lambda>x_check. if alpha (px im x_check (y + dy)) \<ge> t
                                     then Some (y + dy) else None) (range_py (width im))"
  have n: "0 < ?n" using assms by simp
  then have r: "range_py ?n = 0 # [1..?n - 1]"
    by (simp add: range_py_def upto_rec1)
  have "?g 0 \<noteq> None" using assms by (auto simp: first_some_None_iff set_range_py)
  then obtain v where v: "?g 0 = Some v" by blast
  from first_some_range_SomeD[OF this] have "v = y" by (auto split: if_splits)
  with v have top: "first_some ?g (range_py ?n) = Some y" unfolding r by simp
  have "first_some (\<lambda>x_search. if alpha (px im x_search y) \<ge> t
                                           then Some x_search else None) (range_py (width im)) \<noteq> None"
    using assms by (auto simp: first_some_None_iff set_range_py)
  with top show ?thesis
    by (auto simp: find_row_anchor_def Let_def split: option.splits)
qed

lemma find_first_None_iff:
  "find_first_nontransparent_pixel im t = None \<longleftrightarrow> (\<forall>x y. \<not> visible_in im t x y)"
  by (auto simp: find_first_nontransparent_pixel_def first_some_None_iff set_range_py visible_in_def)

lemma find_last_None_iff:
  "find_last_nontransparent_pixel im t = None \<longleftrightarrow> (\<forall>x y. \<not> visible_in im t x y)"
  by (auto simp: find_last_nontransparent_pixel_def first_some_None_iff set_range_py visible_in_def)

lemma find_leftmost_None_iff:
  "find_leftmost_nontransparent_pixel im t = None \<longleftrightarrow> (\<forall>x y. \<not> visible_in im t x y)"
  by (auto simp: find_leftmost_nontransparent_pixel_def first_some_None_iff set_range_py visible_in_def)

lemma find_rightmost_None_iff:
  "find_rightmost_nontransparent_pixel im t = None \<longleftrightarrow> (\<forall>x y. \<not> visible_in im t x y)"
  by (auto simp: find_rightmost_nontransparent_pixel_def first_some_None_iff set_range_py visible_in_def)

section \<open>Hexadecimal strings and the cells of a block\<close>

lemma hex_digit_props:
  assumes "n < 16"
  shows "hex_val (hex_digit n) = Some (int n) \<and> \<not> is_int_space (hex_digit n)
       \<and> hex_digit n \<noteq> CHR ''-'' \<and> hex_digit n \<noteq> CHR ''+''"
proof -
  have "list_all (\<lambda>n. hex_val (hex_digit n) = Some (int n) \<and> \<not> is_int_space (hex_digit n)
       \<and> hex_digit n \<noteq> CHR ''-'' \<and> hex_digit n \<noteq> CHR ''+'') [0..<16]"
    by code_simp
  with assms show ?thesis by (simp add: list_all_iff)
qed

lemma int16_two_digits:
  assumes "m < 16" "n < 16"
  shows "int16 [hex_digit m, hex_digit n] = Inr (16 * int m + int n)"
  using hex_digit_props[OF assms(1)] hex_digit_props[OF assms(2)]
  by (simp add: int16_def strip_def)

lemma int16_to_hex: "int16 (to_hex v) = Inr (uint v)"
proof -
  have "unat v < 256" using unsigned_less[of v] by simp
  then have a: "unat v div 16 < 16" by simp
  have b: "unat v mod 16 < 16" by simp
  have "16 * int (unat v div 16) + int (unat v mod 16) = int (unat v)"
    by (simp add: zdiv_int zmod_int)
  then show ?thesis
    unfolding to_hex_def using int16_two_digits[OF a b] by simp
qed

lemma length_to_hex: "length (to_hex v) = 2"
  by (simp add: to_hex_def)

lemma length_rgba_hex: "length (rgba_hex p) = 9"
  by (cases p) (simp add: rgba_hex_def length_to_hex)

lemma rgba_hex_last2: "int16 (drop (length (rgba_hex p) - 2) (rgba_hex p)) = Inr (alpha p)"
  by (cases p) (simp add: rgba_hex_def length_to_hex alpha_def int16_to_hex)


lemma loop_until_foldl:
  "loop_until brk body xs s = foldl (\<lambda>s i. body i s) s (takeWhile (\<lambda>i. \<not> brk i) xs)"
  by (induction xs arbitrary: s) auto

lemma visit_pixels_fold:
  "visible (foldl (\<lambda>s dx. visit_pixel im t (ox + dx) sy dx s) st dxs)
     = visible st + int (length (filter (vis_cell im t) (map (\<lambda>dx. (ox + dx, sy)) dxs)))
   \<and> blk_color_counts (foldl (\<lambda>s dx. visit_pixel im t (ox + dx) sy dx s) st dxs)
     = count_colors (blk_color_counts st)
         (map (\<lambda>c. rgba_hex (px im (fst c) (snd c)))
            (filter (vis_cell im t) (map (\<lambda>dx. (ox + dx, sy)) dxs)))
   \<and> blk_pixels (foldl (\<lambda>s dx. visit_pixel im t (ox + dx) sy dx s) st dxs)
     = blk_pixels st @ map (\<lambda>c. \<lparr>pe_x = fst c, pe_y = snd c, pe_rgba = px im (fst c) (snd c)\<rparr>)
         (map (\<lambda>dx. (ox + dx, sy)) dxs)"
proof (induction dxs arbitrary: st)
  case Nil
  then show ?case by (simp add: count_colors_def)
next
  case (Cons a dxs)
  show ?case
    by (simp only: foldl_Cons Cons.IH)
       (simp add: visit_pixel_def Let_def vis_cell_def count_colors_def)
qed

lemma scan_block_line_fields:
  "visible (scan_block_line im bs t ox sy st)
     = visible st + int (length (filter (vis_cell im t) (line_cells im bs ox sy)))"
  "blk_color_counts (scan_block_line im bs t ox sy st)
     = count_colors (blk_color_counts st)
         (map (\<lambda>c. rgba_hex (px im (fst c) (snd c))) (filter (vis_cell im t) (line_cells im bs ox sy)))"
  "blk_pixels (scan_block_line im bs t ox sy st)
     = blk_pixels st @ map (\<lambda>c. \<lparr>pe_x = fst c, pe_y = snd c, pe_rgba = px im (fst c) (snd c)\<rparr>)
         (line_cells im bs ox sy)"
  using visit_pixels_fold[of im t ox sy "st\<lparr>row_present := False\<rparr>"
      "takeWhile (\<lambda>dx. \<not> ox + dx \<ge> width im) (range_py bs)"]
  by (simp_all add: scan_block_line_def loop_until_foldl Let_def line_cells_def)

lemma count_colors_append: "count_colors d (ks @ ks') = count_colors (count_colors d ks) ks'"
  by (simp add: count_colors_def)

lemma scan_lines_fold:
  "visible (foldl (\<lambda>s dy. scan_block_line im bs t ox (oy + dy) s) st dys)
     = visible st
       + int (length (filter (vis_cell im t) (concat (map (\<lambda>dy. line_cells im bs ox (oy + dy)) dys))))
   \<and> blk_color_counts (foldl (\<lambda>s dy. scan_block_line im bs t ox (oy + dy) s) st dys)
     = count_colors (blk_color_counts st)
         (map (\<lambda>c. rgba_hex (px im (fst c) (snd c)))
            (filter (vis_cell im t) (concat (map (\<lambda>dy. line_cells im bs ox (oy + dy)) dys))))
   \<and> blk_pixels (foldl (\<lambda>s dy. scan_block_line im bs t ox (oy + dy) s) st dys)
     = blk_pixels st @ map (\<lambda>c. \<lparr>pe_x = fst c, pe_y = snd c, pe_rgba = px im (fst c) (snd c)\<rparr>)
         (concat (map (\<lambda>dy. line_cells im bs ox (oy + dy)) dys))"
proof (induction dys arbitrary: st)
  case Nil
  then show ?case by (simp add: count_colors_def)
next
  case (Cons a dys)
  show ?case
    by (simp only: foldl_Cons Cons.IH)
       (simp add: scan_block_line_fields count_colors_append)
qed

lemma collect_block_fields:
  "visible (collect_block im bs t ox oy)
     = int (length (filter (vis_cell im t) (block_cells im bs ox oy)))"
  "blk_color_counts (collect_block im bs t ox oy)
     = count_colors [] (map rgba_hex (visible_colors im bs t ox oy))"
  "blk_pixels (collect_block im bs t ox oy)
     = map (\<lambda>c. \<lparr>pe_x = fst c, pe_y = snd c, pe_rgba = px im (fst c) (snd c)\<rparr>)
         (block_cells im bs ox oy)"
  using scan_lines_fold[of im bs t ox oy
      "\<lparr>blk_pixels = [], blk_color_counts = [], visible = 0, skipped = 0,
        actual_w = 0, actual_h = 0, row_present = False\<rparr>"
      "takeWhile (\<lambda>dy. \<not> oy + dy \<ge> height im) (range_py bs)"]
  by (simp_all add: collect_block_def loop_until_foldl block_cells_def visible_colors_def comp_def)

section \<open>Blocks and rows\<close>

lemma map_raise_Inr:
  "(\<forall>x\<in>set xs. \<exists>y. f x = Inr y) \<Longrightarrow> map_raise f xs = Inr (map (\<lambda>x. projr (f x)) xs)"
  by (induction xs) auto

lemma dict_incr_keys: "fst ` set (dict_incr k d) = insert k (fst ` set d)"
  by (induction k d rule: dict_incr.induct) auto

lemma count_colors_keys: "fst ` set (count_colors d ks) = fst ` set d \<union> set ks"
  unfolding count_colors_def
  by (induction ks arbitrary: d) (auto simp: dict_incr_keys)

lemma set_sorted_items: "set (sorted_items d) = set d"
  by (simp add: sorted_items_def)

lemma color_entry_of_hex:
  "color_entry_of coords (rgba_hex p, v) =
     Inr \<lparr>ce_rgba_hex = rgba_hex p, ce_rgb_hex = take 7 (rgba_hex p), ce_a = alpha p,
          ce_count = v,
          ce_coords = (case map_of coords (rgba_hex p) of None \<Rightarrow> [] | Some cs \<Rightarrow> cs)\<rparr>"
  by (simp add: color_entry_of_def rgba_hex_last2)

lemma scan_block_Inr:
  "\<exists>cl. scan_block im bs t ox oy bi =
          Inr \<lparr>b_index = bi, b_origin_x = ox, b_origin_y = oy,
               b_actual_w = actual_w (collect_block im bs t ox oy),
               b_actual_h = actual_h (collect_block im bs t ox oy),
               b_visible_pixels = int (length (filter (vis_cell im t) (block_cells im bs ox oy))),
               b_skipped_pixels = skipped (collect_block im bs t ox oy),
               b_unique_colors = int (length cl),
               b_color_counts = cl\<rparr>
      \<and> map (\<lambda>e. (ce_rgba_hex e, ce_count e)) cl
          = sorted_items (count_colors [] (map rgba_hex (visible_colors im bs t ox oy)))
      \<and> (\<forall>e\<in>set cl. \<exists>p\<in>set (visible_colors im bs t ox oy).
            ce_rgba_hex e = rgba_hex p \<and> ce_rgb_hex e = take 7 (rgba_hex p) \<and> ce_a e = alpha p)"
proof -
  let ?items = "sorted_items (count_colors [] (map rgba_hex (visible_colors im bs t ox oy)))"
  let ?coords = "build_color_coords t (blk_pixels (collect_block im bs t ox oy))"
  let ?f = "color_entry_of ?coords"
  have keys: "\<exists>p\<in>set (visible_colors im bs t ox oy). fst kv = rgba_hex p" if "kv \<in> set ?items" for kv
  proof -
    from that have "fst kv \<in> fst ` set (count_colors [] (map rgba_hex (visible_colors im bs t ox oy)))"
      by (simp add: set_sorted_items)
    then show ?thesis by (auto simp: count_colors_keys)
  qed
  have ent: "\<exists>p\<in>set (visible_colors im bs t ox oy).
               ?f kv = Inr \<lparr>ce_rgba_hex = rgba_hex p, ce_rgb_hex = take 7 (rgba_hex p), ce_a = alpha p,
                  ce_count = snd kv,
                  ce_coords = (case map_of ?coords (rgba_hex p) of None \<Rightarrow> [] | Some cs \<Rightarrow> cs)\<rparr>
               \<and> fst kv = rgba_hex p"
    if "kv \<in> set ?items" for kv
  proof -
    from keys[OF that] obtain p where p: "p \<in> set (visible_colors im bs t ox oy)" "fst kv = rgba_hex p"
      by blast
    then have "kv = (rgba_hex p, snd kv)" by (cases kv) simp
    then have "?f kv = Inr \<lparr>ce_rgba_hex = rgba_hex p, ce_rgb_hex = take 7 (rgba_hex p), ce_a = alpha p,
                  ce_count = snd kv,
                  ce_coords = (case map_of ?coords (rgba_hex p) of None \<Rightarrow> [] | Some cs \<Rightarrow> cs)\<rparr>"
      using color_entry_of_hex[of ?coords p "snd kv"] by simp
    with p show ?thesis by blast
  qed
  let ?cl = "map (\<lambda>x. projr (?f x)) ?items"
  have mr: "map_raise ?f ?items = Inr ?cl"
    by (rule map_raise_Inr) (use ent in blast)
  have a: "scan_block im bs t ox oy bi =
          Inr \<lparr>b_index = bi, b_origin_x = ox, b_origin_y = oy,
               b_actual_w = actual_w (collect_block im bs t ox oy),
               b_actual_h = actual_h (collect_block im bs t ox oy),
               b_visible_pixels = int (length (filter (vis_cell im t) (block_cells im bs ox oy))),
               b_skipped_pixels = skipped (collect_block im bs t ox oy),
               b_unique_colors = int (length ?cl),
               b_color_counts = ?cl\<rparr>"
    unfolding scan_block_def Let_def collect_block_fields(2) mr
    by (simp add: collect_block_fields(1))
  have b: "map (\<lambda>e. (ce_rgba_hex e, ce_count e)) ?cl = ?items"
  proof -
    have "(ce_rgba_hex (projr (?f kv)), ce_count (projr (?f kv))) = kv" if "kv \<in> set ?items" for kv
      using ent[OF that] by (cases kv) auto
    then show ?thesis by (simp add: map_idI comp_def)
  qed
  have c: "\<forall>e\<in>set ?cl. \<exists>p\<in>set (visible_colors im bs t ox oy).
            ce_rgba_hex e = rgba_hex p \<and> ce_rgb_hex e = take 7 (rgba_hex p) \<and> ce_a e = alpha p"
  proof
    fix e assume "e \<in> set ?cl"
    then obtain kv where kv: "kv \<in> set ?items" "e = projr (?f kv)" by auto
    from ent[OF kv(1)] kv(2) show "\<exists>p\<in>set (visible_colors im bs t ox oy).
            ce_rgba_hex e = rgba_hex p \<and> ce_rgb_hex e = take 7 (rgba_hex p) \<and> ce_a e = alpha p"
      by auto
  qed
  from a b c show ?thesis by blast
qed

lemma scan_block_block_at: "scan_block im bs t ox oy bi = Inr (block_at im bs t ox oy bi)"
  using scan_block_Inr[of im bs t ox oy bi] by (auto simp: block_at_def)

lemma block_at_fields:
  "b_index (block_at im bs t ox oy bi) = bi"
  "b_origin_x (block_at im bs t ox oy bi) = ox"
  "b_origin_y (block_at im bs t ox oy bi) = oy"
  "b_visible_pixels (block_at im bs t ox oy bi)
     = int (length (filter (vis_cell im t) (block_cells im bs ox oy)))"
  using scan_block_Inr[of im bs t ox oy bi] by (auto simp: block_at_def)

lemma block_at_color_counts:
  "map (\<lambda>e. (ce_rgba_hex e, ce_count e)) (b_color_counts (block_at im bs t ox oy bi))
     = sorted_items (count_colors [] (map rgba_hex (visible_colors im bs t ox oy)))"
  "\<forall>e\<in>set (b_color_counts (block_at im bs t ox oy bi)).
     \<exists>p\<in>set (visible_colors im bs t ox oy).
        ce_rgba_hex e = rgba_hex p \<and> ce_rgb_hex e = take 7 (rgba_hex p) \<and> ce_a e = alpha p"
  using scan_block_Inr[of im bs t ox oy bi] by (auto simp: block_at_def)

lemma block_loop_eq:
  "0 < bs \<Longrightarrow> block_loop im bs t fx y bi acc = Some (Inr (acc @ blocks_from im bs t fx y bi))"
proof (induction im bs t fx y bi arbitrary: acc rule: blocks_from.induct)
  case (1 im bs t fx y bi)
  show ?case
  proof (cases "fx + bi * bs \<ge> width im")
    case True
    then show ?thesis
      by (subst block_loop.simps, subst blocks_from.simps) simp
  next
    case False
    with "1.prems" have g: "\<not> (bs \<le> 0 \<or> width im \<le> fx + bi * bs)" by simp
    show ?thesis
      apply (subst block_loop.simps)
      apply (subst blocks_from.simps)
      using False "1.prems" "1.IH"[OF g "1.prems"]
      apply (simp add: Let_def scan_block_block_at)
      done
  qed
qed

lemma trim_trailing_spec:
  "bs \<noteq> 0 \<Longrightarrow>
     \<exists>kept removed. trim_trailing bs xs = Inr kept \<and> xs = kept @ removed
        \<and> (\<forall>b\<in>set removed. sparse bs b) \<and> (kept \<noteq> [] \<longrightarrow> \<not> sparse bs (last kept))"
proof (induction bs xs rule: trim_trailing.induct)
  case (1 bs xs)
  show ?case
  proof (cases "xs = []")
    case True
    then show ?thesis by (subst trim_trailing.simps) simp
  next
    case ne: False
    show ?thesis
    proof (cases "sparse bs (last xs)")
      case True
      have nz2: "\<not> bs * bs = 0" using "1.prems" by simp
      from "1.IH"[OF ne nz2 True "1.prems"]
      obtain kept removed where k: "trim_trailing bs (butlast xs) = Inr kept"
        "butlast xs = kept @ removed" "\<forall>b\<in>set removed. sparse bs b"
        "kept \<noteq> [] \<longrightarrow> \<not> sparse bs (last kept)" by blast
      have "xs = kept @ (removed @ [last xs])"
        using k(2) ne by (metis append.assoc append_butlast_last_id)
      moreover have "\<forall>b\<in>set (removed @ [last xs]). sparse bs b" using k(3) True by simp
      moreover have "trim_trailing bs xs = Inr kept"
        using ne True "1.prems" k(1) by (subst trim_trailing.simps) simp
      ultimately show ?thesis using k(4) by blast
    next
      case False
      have "trim_trailing bs xs = Inr xs"
        using ne False "1.prems" by (subst trim_trailing.simps) simp
      then have "trim_trailing bs xs = Inr xs \<and> xs = xs @ [] \<and> (\<forall>b\<in>set []. sparse bs b)
        \<and> (xs \<noteq> [] \<longrightarrow> \<not> sparse bs (last xs))" using False by simp
      then show ?thesis by blast
    qed
  qed
qed

lemma scan_row_blocks_no_anchor:
  "find_row_anchor im sy bs t = None \<Longrightarrow> scan_row_blocks im sy bs t = Some None"
  by (simp add: scan_row_blocks_def)

lemma scan_row_blocks_anchor:
  assumes "find_row_anchor im sy bs t = Some (fx, ty)"
  shows "\<exists>kept removed.
      blocks_from im bs t fx ty 0 = kept @ removed
    \<and> (\<forall>b\<in>set removed. sparse bs b)
    \<and> (kept \<noteq> [] \<longrightarrow> \<not> sparse bs (last kept))
    \<and> scan_row_blocks im sy bs t =
        Some (if kept = [] then None
              else Some \<lparr>r_block_size = bs, r_blocks = kept,
                         r_total_blocks = int (length kept),
                         r_first_pixel = (fx, ty),
                         r_last_pixel_visited =
                           (b_origin_x (last kept) + bs - 1, b_origin_y (last kept) + bs - 1)\<rparr>)"
proof -
  from find_row_anchor_SomeD[OF assms] have bs: "0 < bs" by simp
  then have nz: "bs \<noteq> 0" by simp
  have loop: "block_loop im bs t fx ty 0 [] = Some (Inr (blocks_from im bs t fx ty 0))"
    using block_loop_eq[OF bs, of im t fx ty 0 "[]"] by simp
  from trim_trailing_spec[OF nz, of "blocks_from im bs t fx ty 0"]
  obtain kept removed where k: "trim_trailing bs (blocks_from im bs t fx ty 0) = Inr kept"
    "blocks_from im bs t fx ty 0 = kept @ removed" "\<forall>b\<in>set removed. sparse bs b"
    "kept \<noteq> [] \<longrightarrow> \<not> sparse bs (last kept)" by blast
  have "scan_row_blocks im sy bs t =
        Some (if kept = [] then None
              else Some \<lparr>r_block_size = bs, r_blocks = kept,
                         r_total_blocks = int (length kept),
                         r_first_pixel = (fx, ty),
                         r_last_pixel_visited =
                           (b_origin_x (last kept) + bs - 1, b_origin_y (last kept) + bs - 1)\<rparr>)"
  proof (cases "blocks_from im bs t fx ty 0 = []")
    case True
    with k(2) have "kept = []" by simp
    with True show ?thesis by (simp add: scan_row_blocks_def assms loop)
  next
    case False
    then show ?thesis by (simp add: scan_row_blocks_def assms loop k(1))
  qed
  with k show ?thesis by blast
qed

lemma scan_row_blocks_total: "\<exists>r. scan_row_blocks im sy bs t = Some r"
proof (cases "find_row_anchor im sy bs t")
  case None
  then show ?thesis by (simp add: scan_row_blocks_no_anchor)
next
  case (Some a)
  then show ?thesis using scan_row_blocks_anchor[of im sy bs t "fst a" "snd a"] by auto
qed

lemma blocks_from_mem:
  "b \<in> set (blocks_from im bs t fx y bi) \<Longrightarrow>
     \<exists>i\<ge>bi. b = block_at im bs t (fx + i * bs) y i \<and> fx + i * bs < width im
           \<and> 0 < b_visible_pixels b \<and> 0 < bs"
proof (induction im bs t fx y bi rule: blocks_from.induct)
  case (1 im bs t fx y bi)
  from "1.prems" have g: "\<not> (bs \<le> 0 \<or> width im \<le> fx + bi * bs)"
    by (subst (asm) blocks_from.simps) (auto split: if_splits)
  from "1.prems" consider
    (hd) "b = block_at im bs t (fx + bi * bs) y bi" "0 < b_visible_pixels b"
    | (tl) "b \<in> set (blocks_from im bs t fx y (bi + 1))"
    by (subst (asm) blocks_from.simps) (auto split: if_splits)
  then show ?case
  proof cases
    case hd
    with g show ?thesis by auto
  next
    case tl
    from "1.IH"[OF g tl] obtain i where "i \<ge> bi + 1" "b = block_at im bs t (fx + i * bs) y i"
      "fx + i * bs < width im" "0 < b_visible_pixels b" "0 < bs" by blast
    then show ?thesis by (intro exI[of _ i]) auto
  qed
qed

lemma dict_incr_distinct: "distinct (map fst d) \<Longrightarrow> distinct (map fst (dict_incr k d))"
proof (induction k d rule: dict_incr.induct)
  case (1 k)
  then show ?case by simp
next
  case (2 k k' v kvs)
  then show ?case
    using dict_incr_keys[of k kvs] by (auto simp: image_iff)
qed

lemma map_of_dict_incr:
  "map_of (dict_incr k d) k' =
     (if k' = k then Some ((case map_of d k of None \<Rightarrow> 0 | Some v \<Rightarrow> v) + 1) else map_of d k')"
  by (induction k d rule: dict_incr.induct) auto

lemma count_colors_distinct:
  "distinct (map fst d) \<Longrightarrow> distinct (map fst (count_colors d ks))"
  unfolding count_colors_def
  by (induction ks arbitrary: d) (auto simp: dict_incr_distinct)

lemma map_of_count_colors:
  "map_of (count_colors d ks) k =
     (if k \<in> set ks \<or> map_of d k \<noteq> None
      then Some ((case map_of d k of None \<Rightarrow> 0 | Some v \<Rightarrow> v) + int (count_list ks k))
      else None)"
  unfolding count_colors_def
proof (induction ks arbitrary: d)
  case Nil
  then show ?case by (auto split: option.splits)
next
  case (Cons a ks)
  show ?case
    by (simp only: foldl_Cons Cons.IH) (auto simp: map_of_dict_incr split: option.splits)
qed

lemma mset_count_colors:
  "mset (count_colors [] ks)
     = mset (map (\<lambda>k. (k, int (count (mset ks) k))) (sorted_list_of_set (set ks)))"
proof -
  let ?xs = "count_colors [] ks"
  let ?ys = "map (\<lambda>k. (k, int (count (mset ks) k))) (sorted_list_of_set (set ks))"
  have dx: "distinct (map fst ?xs)" by (simp add: count_colors_distinct)
  have dy: "distinct (map fst ?ys)" by (simp add: comp_def)
  have "map_of ?xs k = map_of ?ys k" for k
    by (simp add: map_of_count_colors map_of_map_restrict restrict_map_def count_mset)
  then have "map_of ?xs = map_of ?ys" by (rule ext)
  with dx dy have "set ?xs = set ?ys" by (simp add: map_of_inject_set)
  moreover from dx have "distinct ?xs" by (rule distinct_map[THEN iffD1, THEN conjunct1])
  moreover from dy have "distinct ?ys" by (rule distinct_map[THEN iffD1, THEN conjunct1])
  ultimately show ?thesis by (metis set_eq_iff_mset_eq_distinct)
qed

lemma inj_rank_key: "inj (\<lambda>kv :: string \<times> int. (- snd kv, fst kv))"
  by (auto simp: inj_on_def prod_eq_iff)

lemma sorted_items_ranked: "sorted_items (count_colors [] ks) = ranked (mset ks)"
  unfolding sorted_items_def ranked_def
proof (rule sort_key_inj_key_eq)
  show "mset (count_colors [] ks)
      = mset (sort_key (\<lambda>kv. (- snd kv, fst kv))
          (map (\<lambda>k. (k, int (count (mset ks) k))) (sorted_list_of_set (set_mset (mset ks)))))"
    by (simp add: mset_count_colors)
  show "inj_on (\<lambda>kv. (- snd kv, fst kv)) (set (count_colors [] ks))"
    using inj_rank_key by (rule inj_on_subset) simp
  show "sorted (map (\<lambda>kv. (- snd kv, fst kv))
          (sort_key (\<lambda>kv. (- snd kv, fst kv))
          (map (\<lambda>k. (k, int (count (mset ks) k))) (sorted_list_of_set (set_mset (mset ks))))))"
    by simp
qed

lemma sorted_items_strict:
  assumes "distinct (map fst d)"
  shows "sorted_wrt (\<lambda>a b. snd a > snd b \<or> (snd a = snd b \<and> fst a < fst b)) (sorted_items d)"
proof -
  let ?f = "\<lambda>kv :: string \<times> int. (- snd kv, fst kv)"
  from assms have "distinct d" by (rule distinct_map[THEN iffD1, THEN conjunct1])
  then have "distinct (sort_key ?f d)" by simp
  then have "distinct (map ?f (sort_key ?f d))"
    by (simp add: distinct_map inj_on_def prod_eq_iff)
  moreover have "sorted (map ?f (sort_key ?f d))" by simp
  ultimately have "sorted_wrt (<) (map ?f (sort_key ?f d))"
    by (simp add: strict_sorted_iff)
  then have "sorted_wrt (\<lambda>a b. ?f a < ?f b) (sort_key ?f d)"
    by (simp add: sorted_wrt_map)
  then show ?thesis
    unfolding sorted_items_def
    by (rule sorted_wrt_mono_rel[rotated]) (auto simp: less_prod_def)
qed

lemma scan_row_blocks_SomeD:
  assumes "scan_row_blocks im sy bs t = Some (Some r)"
  shows "\<exists>fx ty removed. find_row_anchor im sy bs t = Some (fx, ty)
      \<and> blocks_from im bs t fx ty 0 = r_blocks r @ removed
      \<and> r_blocks r \<noteq> [] \<and> \<not> sparse bs (last (r_blocks r)) \<and> (\<forall>b\<in>set removed. sparse bs b)
      \<and> r_first_pixel r = (fx, ty) \<and> r_block_size r = bs"
proof (cases "find_row_anchor im sy bs t")
  case None
  with assms show ?thesis by (simp add: scan_row_blocks_no_anchor)
next
  case (Some a)
  obtain fx ty where a: "a = (fx, ty)" by (cases a)
  from scan_row_blocks_anchor[OF Some[unfolded a]] assms
  obtain kept removed where k: "blocks_from im bs t fx ty 0 = kept @ removed"
    "\<forall>b\<in>set removed. sparse bs b" "kept \<noteq> [] \<longrightarrow> \<not> sparse bs (last kept)"
    "Some (Some r) = Some (if kept = [] then None
              else Some \<lparr>r_block_size = bs, r_blocks = kept,
                         r_total_blocks = int (length kept),
                         r_first_pixel = (fx, ty),
                         r_last_pixel_visited =
                           (b_origin_x (last kept) + bs - 1, b_origin_y (last kept) + bs - 1)\<rparr>)"
    by metis
  from k(4) have ne: "kept \<noteq> []" by (auto split: if_splits)
  with k(4) have "r_blocks r = kept" "r_first_pixel r = (fx, ty)" "r_block_size r = bs" by auto
  with k ne Some a show ?thesis by auto
qed

lemma row_block_is_block_at:
  assumes "scan_row_blocks im sy bs t = Some (Some r)" "b \<in> set (r_blocks r)"
  shows "b = block_at im bs t (b_origin_x b) (b_origin_y b) (b_index b)"
    "0 < b_visible_pixels b" "0 < bs" "0 \<le> b_index b"
    "b_origin_x b = fst (r_first_pixel r) + b_index b * bs"
    "b_origin_y b = snd (r_first_pixel r)"
    "b_origin_x b < width im"
proof -
  from scan_row_blocks_SomeD[OF assms(1)] obtain fx ty removed where
    *: "blocks_from im bs t fx ty 0 = r_blocks r @ removed" "r_first_pixel r = (fx, ty)" by blast
  with assms(2) have "b \<in> set (blocks_from im bs t fx ty 0)" by simp
  from blocks_from_mem[OF this] obtain i where i: "0 \<le> i" "b = block_at im bs t (fx + i * bs) ty i"
    "fx + i * bs < width im" "0 < b_visible_pixels b" "0 < bs" by blast
  from i(2) have f: "b_index b = i" "b_origin_x b = fx + i * bs" "b_origin_y b = ty"
    by (simp_all add: block_at_fields)
  from i(2) f show "b = block_at im bs t (b_origin_x b) (b_origin_y b) (b_index b)" by simp
  from i f *(2) show "0 < b_visible_pixels b" "0 < bs" "0 \<le> b_index b"
    "b_origin_x b = fst (r_first_pixel r) + b_index b * bs"
    "b_origin_y b = snd (r_first_pixel r)"
    "b_origin_x b < width im"
    by simp_all
qed

lemma visible_colors_nonempty:
  "0 < b_visible_pixels (block_at im bs t ox oy bi) \<Longrightarrow> visible_colors im bs t ox oy \<noteq> []"
  by (auto simp: block_at_fields visible_colors_def)

section \<open>The rows of the grid\<close>

lemma scan_all_rows_eq:
  "0 < bs \<Longrightarrow> scan_all_rows im bs t last_y cur acc = Some (acc @ rows_from im bs t last_y cur)"
proof (induction im bs t last_y cur arbitrary: acc rule: rows_from.induct)
  case (1 im bs t last_y cur)
  show ?case
  proof (cases "cur \<le> last_y")
    case False
    then show ?thesis
      by (subst scan_all_rows.simps, subst rows_from.simps) simp
  next
    case True
    with "1.prems" have g: "\<not> (bs \<le> 0 \<or> last_y < cur)" by simp
    from scan_row_blocks_total[of im cur bs t] obtain rd where rd: "scan_row_blocks im cur bs t = Some rd"
      by blast
    show ?thesis
      apply (subst scan_all_rows.simps)
      apply (subst rows_from.simps)
      using True "1.prems" "1.IH"[OF g "1.prems"] rd
      apply (simp split: option.splits)
      done
  qed
qed

lemma scan_all_rows_diverges:
  assumes "scan_all_rows im bs t last_y cur acc = Some rows"
  shows "0 < bs \<or> last_y < cur"
proof (rule scan_all_rows.raw_induct
    [where P = "\<lambda>im bs t last_y cur acc rows. 0 < bs \<or> last_y < cur", OF _ assms], goal_cases)
  case (1 f im bs t last_y cur acc rows)
  show ?case
  proof (rule ccontr)
    assume n: "\<not> (0 < bs \<or> last_y < cur)"
    then have le: "cur \<le> last_y" "bs \<le> 0" by simp_all
    from 1(2) le(1) obtain acc' where "f im bs t last_y (cur + bs) acc' = Some rows"
      by (auto split: option.splits if_splits)
    from 1(1)[OF this] le show False by simp
  qed
qed

lemma blocks_from_sorted:
  "sorted_wrt (<) (map b_index (blocks_from im bs t fx y bi))"
proof (induction im bs t fx y bi rule: blocks_from.induct)
  case (1 im bs t fx y bi)
  show ?case
  proof (cases "bs \<le> 0 \<or> fx + bi * bs \<ge> width im")
    case True
    then show ?thesis by (subst blocks_from.simps) simp
  next
    case False
    have tl: "bi < b_index b" if "b \<in> set (blocks_from im bs t fx y (bi + 1))" for b
      using blocks_from_mem[OF that] by (auto simp: block_at_fields)
    show ?thesis
      apply (subst blocks_from.simps)
      using False "1.IH"[OF False] tl
      apply (auto simp: block_at_fields)
      done
  qed
qed

lemma block_cells_mem:
  assumes "c \<in> set (block_cells im bs ox oy)"
  shows "ox \<le> fst c \<and> fst c < width im \<and> fst c < ox + bs
       \<and> oy \<le> snd c \<and> snd c < height im \<and> snd c < oy + bs"
proof -
  from assms obtain dy where dy: "dy \<in> set (takeWhile (\<lambda>dy. \<not> oy + dy \<ge> height im) (range_py bs))"
    "c \<in> set (line_cells im bs ox (oy + dy))"
    by (auto simp: block_cells_def)
  from dy(2) obtain dx where dx: "dx \<in> set (takeWhile (\<lambda>dx. \<not> ox + dx \<ge> width im) (range_py bs))"
    "c = (ox + dx, oy + dy)"
    by (auto simp: line_cells_def)
  from set_takeWhileD[OF dy(1)] have "0 \<le> dy" "dy < bs" "oy + dy < height im"
    by (auto simp: set_range_py)
  moreover from set_takeWhileD[OF dx(1)] have "0 \<le> dx" "dx < bs" "ox + dx < width im"
    by (auto simp: set_range_py)
  ultimately show ?thesis using dx(2) by simp
qed

lemma block_visible_pixel:
  assumes "0 < b_visible_pixels (block_at im bs t ox oy bi)"
  shows "\<exists>x y. ox \<le> x \<and> x < width im \<and> oy \<le> y \<and> y < height im \<and> t \<le> alpha (px im x y)"
proof -
  from assms have "filter (vis_cell im t) (block_cells im bs ox oy) \<noteq> []"
    by (auto simp: block_at_fields)
  then obtain c where c: "c \<in> set (block_cells im bs ox oy)" "vis_cell im t c"
    by (metis filter_False)
  from block_cells_mem[OF c(1)] c(2) show ?thesis
    unfolding vis_cell_def by blast
qed

lemma row_facts:
  assumes "scan_row_blocks im sy bs t = Some (Some r)"
  shows "0 < bs" "sy \<le> row_y r" "row_y r < sy + bs" "row_y r < height im" "r_blocks r \<noteq> []"
    "0 \<le> fst (r_first_pixel r)" "fst (r_first_pixel r) < width im"
    "t \<le> alpha (px im (fst (r_first_pixel r)) (row_y r))"
    "sorted_wrt (<) (map b_index (r_blocks r))"
proof -
  from scan_row_blocks_SomeD[OF assms] obtain fx ty removed where
    *: "find_row_anchor im sy bs t = Some (fx, ty)"
       "blocks_from im bs t fx ty 0 = r_blocks r @ removed"
       "r_blocks r \<noteq> []" "r_first_pixel r = (fx, ty)" by blast
  note a = find_row_anchor_SomeD[OF *(1)]
  from a *(4) show "0 < bs" "sy \<le> row_y r" "row_y r < sy + bs" "row_y r < height im"
    "0 \<le> fst (r_first_pixel r)" "fst (r_first_pixel r) < width im"
    "t \<le> alpha (px im (fst (r_first_pixel r)) (row_y r))"
    by (simp_all add: row_y_def)
  from * show "r_blocks r \<noteq> []" by simp
  from blocks_from_sorted[of im bs t fx ty 0] *(2)
  show "sorted_wrt (<) (map b_index (r_blocks r))"
    by (simp add: sorted_wrt_append)
qed

lemma rows_from_mem:
  "r \<in> set (rows_from im bs t last_y cur) \<Longrightarrow>
     \<exists>sy\<ge>cur. sy \<le> last_y \<and> scan_row_blocks im sy bs t = Some (Some r)"
proof (induction im bs t last_y cur rule: rows_from.induct)
  case (1 im bs t last_y cur)
  from "1.prems" have g: "\<not> (bs \<le> 0 \<or> last_y < cur)"
    by (subst (asm) rows_from.simps) (auto split: if_splits)
  from "1.prems" consider
    (hd) "scan_row_blocks im cur bs t = Some (Some r)"
    | (tl) "r \<in> set (rows_from im bs t last_y (cur + bs))"
    by (subst (asm) rows_from.simps) (auto split: if_splits option.splits)
  then show ?case
  proof cases
    case hd
    with g show ?thesis by auto
  next
    case tl
    from "1.IH"[OF g tl] obtain sy where "sy \<ge> cur + bs" "sy \<le> last_y"
      "scan_row_blocks im sy bs t = Some (Some r)" by blast
    with g show ?thesis by (intro exI[of _ sy]) auto
  qed
qed

lemma rows_from_lower: "r \<in> set (rows_from im bs t last_y cur) \<Longrightarrow> cur \<le> row_y r"
proof -
  assume "r \<in> set (rows_from im bs t last_y cur)"
  from rows_from_mem[OF this] obtain sy where "sy \<ge> cur" "scan_row_blocks im sy bs t = Some (Some r)"
    by blast
  with row_facts(2)[OF this(2)] show ?thesis by simp
qed


section \<open>Successful runs of main\<close>

lemma int_trunc_div: "0 \<le> a \<Longrightarrow> 0 < b \<Longrightarrow> int_trunc (of_int a / of_int b) = a div b"
  by (simp add: int_trunc_def floor_divide_of_int_eq)

lemma rows_from_sorted_y:
  "sorted_wrt (\<lambda>a b. row_y a < row_y b) (rows_from im bs t last_y cur)"
proof (induction im bs t last_y cur rule: rows_from.induct)
  case (1 im bs t last_y cur)
  show ?case
  proof (cases "bs \<le> 0 \<or> cur > last_y")
    case True
    then show ?thesis by (subst rows_from.simps) simp
  next
    case False
    have "row_y r < row_y r'"
      if "scan_row_blocks im cur bs t = Some (Some r)" "r' \<in> set (rows_from im bs t last_y (cur + bs))"
      for r r'
      using row_facts(3)[OF that(1)] rows_from_lower[OF that(2)] by simp
    then show ?thesis
      apply (subst rows_from.simps)
      using False "1.IH"[OF False]
      apply (auto split: option.splits)
      done
  qed
qed

lemma visible_in_exists_scanners:
  assumes "visible_in im t x y"
  shows "\<exists>a b c d. find_first_nontransparent_pixel im t = Some a
       \<and> find_last_nontransparent_pixel im t = Some b
       \<and> find_leftmost_nontransparent_pixel im t = Some c
       \<and> find_rightmost_nontransparent_pixel im t = Some d"
proof -
  have "find_first_nontransparent_pixel im t \<noteq> None" "find_last_nontransparent_pixel im t \<noteq> None"
    "find_leftmost_nontransparent_pixel im t \<noteq> None" "find_rightmost_nontransparent_pixel im t \<noteq> None"
    using assms
    by (auto simp: find_first_None_iff find_last_None_iff find_leftmost_None_iff find_rightmost_None_iff)
  then show ?thesis by auto
qed

lemma row_block_facts:
  assumes r: "scan_row_blocks im sy bs t = Some (Some r)" and b: "b \<in> set (r_blocks r)"
    and sy: "0 \<le> sy"
  shows "b_origin_y b = row_y r" "fst (r_first_pixel r) \<le> b_origin_x b"
    "visible_in im t (fst (r_first_pixel r)) (row_y r)"
    "\<exists>x y. b_origin_x b \<le> x \<and> visible_in im t x y"
    "b_color_counts b \<noteq> []"
    "b_origin_x b = fst (r_first_pixel r) + b_index b * bs"
proof -
  note f = row_facts[OF r]
  note rb = row_block_is_block_at[OF r b]
  from rb(6) show oy: "b_origin_y b = row_y r" by (simp add: row_y_def)
  from rb(5) show ox: "b_origin_x b = fst (r_first_pixel r) + b_index b * bs" by simp
  from rb(3,4) have "0 \<le> b_index b * bs" by simp
  with ox show fx: "fst (r_first_pixel r) \<le> b_origin_x b" by simp
  from f sy show "visible_in im t (fst (r_first_pixel r)) (row_y r)"
    by (simp add: visible_in_def)
  from rb(1,2) have "0 < b_visible_pixels (block_at im bs t (b_origin_x b) (b_origin_y b) (b_index b))"
    by simp
  from block_visible_pixel[OF this] obtain x y where
    "b_origin_x b \<le> x" "x < width im" "b_origin_y b \<le> y" "y < height im" "t \<le> alpha (px im x y)"
    by blast
  with fx f(6) oy f(2) sy have "b_origin_x b \<le> x \<and> visible_in im t x y"
    by (simp add: visible_in_def)
  then show "\<exists>x y. b_origin_x b \<le> x \<and> visible_in im t x y" by blast
  note bb = rb(1) and v = rb(2)
  show "b_color_counts b \<noteq> []"
  proof -
    let ?ks = "map rgba_hex (visible_colors im bs t (b_origin_x b) (b_origin_y b))"
    have m: "map (\<lambda>e. (ce_rgba_hex e, ce_count e)) (b_color_counts b) = sorted_items (count_colors [] ?ks)"
      using block_at_color_counts(1)[of im bs t "b_origin_x b" "b_origin_y b" "b_index b"] bb by simp
    from v bb have "visible_colors im bs t (b_origin_x b) (b_origin_y b) \<noteq> []"
      using visible_colors_nonempty[of im bs t "b_origin_x b" "b_origin_y b" "b_index b"] by simp
    then have "fst ` set (count_colors [] ?ks) \<noteq> {}" by (simp add: count_colors_keys)
    then have "sorted_items (count_colors [] ?ks) \<noteq> []"
      using set_sorted_items[of "count_colors [] ?ks"] by auto
    with m show ?thesis by auto
  qed
qed

lemma generate_svg_eq:
  assumes "rows \<noteq> []" "r_blocks (hd rows) \<noteq> []" "0 < bs" "0 \<le> rx - lx"
    "0 \<le> by - top_ref_of rows"
  shows "generate_svg bs (Some (lx, ly)) (Some (rx, ry)) by rows =
     Inr \<lparr>canvas_w = (rx - lx) div bs + 1, canvas_h = (by - top_ref_of rows) div bs + 1,
          rects = List.map_filter (block_rect bs lx (top_ref_of rows)) (concat (map r_blocks rows))\<rparr>"
proof -
  from assms(1) obtain r0 rest where rows: "rows = r0 # rest" by (cases rows) auto
  with assms(2) obtain b0 bl where bl: "r_blocks r0 = b0 # bl" by (cases "r_blocks r0") auto
  have t: "top_ref_of rows = b_origin_y b0" by (simp add: top_ref_of_def rows bl)
  show ?thesis
    unfolding t[symmetric] generate_svg_def
    using assms(3,4,5) t
    by (simp add: rows bl Let_def int_trunc_div del: of_int_diff)
qed

lemma rows_from_hd:
  assumes "rows_from im bs t last_y cur \<noteq> []" "0 \<le> cur"
  shows "\<exists>sy\<ge>cur. scan_row_blocks im sy bs t = Some (Some (hd (rows_from im bs t last_y cur)))"
    "r_blocks (hd (rows_from im bs t last_y cur)) \<noteq> []"
    "top_ref_of (rows_from im bs t last_y cur) = row_y (hd (rows_from im bs t last_y cur))"
    "\<forall>r\<in>set (rows_from im bs t last_y cur). row_y (hd (rows_from im bs t last_y cur)) \<le> row_y r"
proof -
  let ?rows = "rows_from im bs t last_y cur"
  from assms(1) have "hd ?rows \<in> set ?rows" by simp
  from rows_from_mem[OF this] obtain sy where sy: "cur \<le> sy"
    "scan_row_blocks im sy bs t = Some (Some (hd ?rows))" by blast
  then show "\<exists>sy\<ge>cur. scan_row_blocks im sy bs t = Some (Some (hd ?rows))" by blast
  from row_facts(5)[OF sy(2)] show ne: "r_blocks (hd ?rows) \<noteq> []" .
  then have "hd (r_blocks (hd ?rows)) \<in> set (r_blocks (hd ?rows))" by simp
  from row_block_facts(1)[OF sy(2) this] sy(1) assms(2)
  show "top_ref_of ?rows = row_y (hd ?rows)" by (simp add: top_ref_of_def)
  from assms(1) obtain r0 rest where rr: "?rows = r0 # rest" by (cases ?rows) auto
  from rows_from_sorted_y[of im bs t last_y cur] have "\<forall>r\<in>set rest. row_y r0 < row_y r"
    unfolding rr by simp
  then show "\<forall>r\<in>set ?rows. row_y (hd ?rows) \<le> row_y r"
    unfolding rr by auto
qed

lemma run_generates:
  assumes f: "find_first_nontransparent_pixel im 128 = Some (fx, fy)"
    and l: "find_last_nontransparent_pixel im 128 = Some (bx, by)"
    and sar: "scan_all_rows im bs 128 by fy [] = Some rows"
    and ne: "rows \<noteq> []"
  obtains lx ly rx ry where
    "find_leftmost_nontransparent_pixel im 128 = Some (lx, ly)"
    "find_rightmost_nontransparent_pixel im 128 = Some (rx, ry)"
    "0 < bs"
    "rows = rows_from im bs 128 by fy"
    "generate_svg bs (find_leftmost_nontransparent_pixel im 128)
       (find_rightmost_nontransparent_pixel im 128) by rows =
     Inr \<lparr>canvas_w = (rx - lx) div bs + 1,
          canvas_h = (by - top_ref_of rows) div bs + 1,
          rects = List.map_filter (block_rect bs lx (top_ref_of rows))
                    (concat (map r_blocks rows))\<rparr>"
proof -
  note ff = find_first_SomeD[OF f] and fl = find_last_SomeD[OF l]
  from ff have vf: "visible_in im 128 fx fy" by simp
  from visible_in_exists_scanners[OF vf] obtain c d where
    c: "find_leftmost_nontransparent_pixel im 128 = Some c"
    and d: "find_rightmost_nontransparent_pixel im 128 = Some d" by auto
  obtain lx ly where lm: "find_leftmost_nontransparent_pixel im 128 = Some (lx, ly)"
    using c by (cases c) auto
  obtain rx ry where rm: "find_rightmost_nontransparent_pixel im 128 = Some (rx, ry)"
    using d by (cases d) auto
  from fl vf have le: "fy \<le> by" by blast
  from scan_all_rows_diverges[OF sar] le have bs: "0 < bs" by simp
  from scan_all_rows_eq[OF bs, of im 128 "by" fy "[]"] sar
  have rows: "rows = rows_from im bs 128 by fy" by simp
  from vf have fy0: "0 \<le> fy" by (simp add: visible_in_def)
  note h = rows_from_hd[OF ne[unfolded rows] fy0]
  from h(1) obtain sy where sy: "fy \<le> sy" "scan_row_blocks im sy bs 128 = Some (Some (hd rows))"
    unfolding rows by blast
  from row_facts[OF sy(2)] sy(1) fy0
  have "visible_in im 128 (fst (r_first_pixel (hd rows))) (row_y (hd rows))"
    by (simp add: visible_in_def)
  with fl have "row_y (hd rows) \<le> by" by blast
  then have top: "0 \<le> by - top_ref_of rows" using h(3) unfolding rows by simp
  from find_leftmost_SomeD[OF lm] find_rightmost_SomeD[OF rm] have "lx \<le> rx" by blast
  then have w: "0 \<le> rx - lx" by simp
  from generate_svg_eq[OF ne h(2)[folded rows] bs w top, of ly ry]
  have "generate_svg bs (find_leftmost_nontransparent_pixel im 128)
       (find_rightmost_nontransparent_pixel im 128) by rows =
     Inr \<lparr>canvas_w = (rx - lx) div bs + 1,
          canvas_h = (by - top_ref_of rows) div bs + 1,
          rects = List.map_filter (block_rect bs lx (top_ref_of rows))
                    (concat (map r_blocks rows))\<rparr>"
    unfolding lm rm by simp
  with that[OF lm rm bs rows] show thesis by blast
qed





section \<open>Rectangles of the grid\<close>









section \<open>Averages over tile boundaries and interiors\<close>

lemma positions_product: "positions h w = List.product (range_py h) (range_py w)"
  by (simp add: positions_def product_concat_map)

lemma distinct_range_py: "distinct (range_py n)"
  by (simp add: range_py_def)

lemma distinct_positions: "distinct (positions h w)"
  by (simp add: positions_product distinct_product distinct_range_py)

lemma set_positions: "set (positions h w) = {(y, x). 0 \<le> y \<and> y < h \<and> 0 \<le> x \<and> x < w}"
  by (auto simp: positions_product set_range_py)

lemma mean_filter_positions:
  "mean_or_zero (map (\<lambda>(y, x). g y x) (filter P (positions h w)))
     = average g {c \<in> set (positions h w). P c}"
proof -
  let ?xs = "filter P (positions h w)"
  have d: "distinct ?xs" by (simp add: distinct_positions)
  have s: "set ?xs = {c \<in> set (positions h w). P c}" by auto
  have "sum_list (map (\<lambda>(y, x). g y x) ?xs) = (\<Sum>c\<in>set ?xs. (\<lambda>(y, x). g y x) c)"
    using d by (simp add: sum_list_distinct_conv_sum_set)
  moreover have "length ?xs = card (set ?xs)" by (rule distinct_card[symmetric, OF d])
  moreover have "?xs = [] \<longleftrightarrow> set ?xs = {}" by (rule set_empty[symmetric])
  ultimately show ?thesis
    unfolding mean_or_zero_def average_def s[symmetric]
    by (simp del: set_filter)
qed

lemma gradient_at_positions_eq:
  assumes "bs \<noteq> 0"
  shows "compute_gradient_at_positions g h w bs
           = Inr (average g (boundary_cells h w bs), average g (inside_cells h w bs))"
proof -
  have b: "{c \<in> set (positions h w). (\<lambda>(y, x). on_boundary bs x \<or> on_boundary bs y) c}
             = boundary_cells h w bs"
    by (auto simp: set_positions boundary_cells_def)
  have i: "{c \<in> set (positions h w). (\<lambda>(y, x). \<not> (on_boundary bs x \<or> on_boundary bs y)) c}
             = inside_cells h w bs"
    by (auto simp: set_positions inside_cells_def)
  show ?thesis
    unfolding compute_gradient_at_positions_def Let_def mean_filter_positions b i
    using assms by simp
qed

section \<open>Drawing rectangles\<close>

lemma set_range_from: "set (range_from a b) = {a..<b}"
  by (auto simp: range_from_def)

lemma rect_cells_mem:
  "c \<in> set (rect_cells x y w h vw vh) \<longleftrightarrow>
     x \<le> fst c \<and> fst c < min (x + w) vw \<and> y \<le> snd c \<and> snd c < min (y + h) vh"
  by (cases c) (auto simp: rect_cells_def set_range_from image_iff)

lemma putpixel_in_range:
  assumes "0 \<le> x" "x < ras_w img" "0 \<le> y" "y < ras_h img"
  shows "putpixel img x y (r, g, b)
           = Inr (img\<lparr>ras_px := (ras_px img)((x, y) := (clip8 r, clip8 g, clip8 b))\<rparr>)"
  using assms by (simp add: putpixel_def)

lemma paint_size: "ras_w (paint img cells color) = ras_w img \<and> ras_h (paint img cells color) = ras_h img"
proof (induction cells arbitrary: img)
  case Nil
  then show ?case by simp
next
  case (Cons c cells)
  show ?case
  proof (cases "putpixel img (fst c) (snd c) color")
    case (Inl e)
    then show ?thesis by simp
  next
    case (Inr img')
    then have "ras_w img' = ras_w img \<and> ras_h img' = ras_h img"
      by (cases color) (auto simp: putpixel_def Let_def split: if_splits)
    with Inr Cons.IH[of img'] show ?thesis by simp
  qed
qed

lemma paint_in_range:
  assumes "\<forall>c\<in>set cells. 0 \<le> fst c \<and> fst c < ras_w img \<and> 0 \<le> snd c \<and> snd c < ras_h img"
  shows "ras_px (paint img cells (r, g, b)) c
           = (if c \<in> set cells then (clip8 r, clip8 g, clip8 b) else ras_px img c)"
  using assms
proof (induction cells arbitrary: img)
  case Nil
  then show ?case by simp
next
  case (Cons a cells)
  let ?img' = "img\<lparr>ras_px := (ras_px img)((fst a, snd a) := (clip8 r, clip8 g, clip8 b))\<rparr>"
  from Cons.prems have p: "putpixel img (fst a) (snd a) (r, g, b) = Inr ?img'"
    by (intro putpixel_in_range) simp_all
  have "\<forall>c\<in>set cells. 0 \<le> fst c \<and> fst c < ras_w ?img' \<and> 0 \<le> snd c \<and> snd c < ras_h ?img'"
    using Cons.prems by simp
  from Cons.IH[OF this] p show ?case by (cases a) auto
qed

lemma draw_rect_skip_num:
  "attr_num num (a_x rect) 0 = None \<or> attr_num num (a_y rect) 0 = None
   \<or> attr_num num (a_width rect) 1 = None \<or> attr_num num (a_height rect) 1 = None
   \<Longrightarrow> draw_rect num vw vh img rect = img"
  by (auto simp: draw_rect_def split: option.splits)

lemma draw_rect_skip_fill:
  "fill_color (fill_attr rect) = Inl e \<Longrightarrow> draw_rect num vw vh img rect = img"
  by (auto simp: draw_rect_def fill_attr_def split: option.splits)

lemma draw_rect_paint:
  assumes "attr_num num (a_x rect) 0 = Some x" "attr_num num (a_y rect) 0 = Some y"
    "attr_num num (a_width rect) 1 = Some w" "attr_num num (a_height rect) 1 = Some h"
    "fill_color (fill_attr rect) = Inr color"
  shows "draw_rect num vw vh img rect = paint img (rect_cells x y w h vw vh) color"
  using assms by (simp add: draw_rect_def fill_attr_def)

section \<open>From the written document to the compact raster\<close>













section \<open>The green square\<close>

lemma green_scanners:
  "find_first_nontransparent_pixel green_square 128 = Some (8, 8)"
  "find_last_nontransparent_pixel green_square 128 = Some (23, 23)"
  "find_leftmost_nontransparent_pixel green_square 128 = Some (8, 8)"
  "find_rightmost_nontransparent_pixel green_square 128 = Some (23, 8)"
  "find_row_anchor green_square 8 16 128 = Some (8, 8)"
  by code_simp+

lemma green_block_counts:
  "length (filter (vis_cell green_square 128) (block_cells green_square 16 8 8)) = 256"
  "length (filter (vis_cell green_square 128) (block_cells green_square 16 24 8)) = 0"
  "sorted_items (count_colors [] (map rgba_hex (visible_colors green_square 16 128 8 8)))
     = [(''#00FF00FF'', 256)]"
  by code_simp+

lemma green_blocks:
  "blocks_from green_square 16 128 8 8 0 = [block_at green_square 16 128 8 8 0]"
proof -
  have w: "width green_square = 32" by (simp add: green_square_def)
  have b2: "blocks_from green_square 16 128 8 8 2 = []"
    by (subst blocks_from.simps) (simp add: w)
  have b1: "blocks_from green_square 16 128 8 8 1 = []"
    by (subst blocks_from.simps) (simp add: w block_at_fields green_block_counts b2)
  show ?thesis
    by (subst blocks_from.simps) (simp add: w block_at_fields green_block_counts b1)
qed

lemma green_block:
  "b_origin_x (block_at green_square 16 128 8 8 0) = 8"
  "b_origin_y (block_at green_square 16 128 8 8 0) = 8"
  "b_visible_pixels (block_at green_square 16 128 8 8 0) = 256"
  "\<exists>e. b_color_counts (block_at green_square 16 128 8 8 0) = [e]
       \<and> ce_rgba_hex e = ''#00FF00FF'' \<and> ce_rgb_hex e = ''#00FF00'' \<and> ce_a e = 255"
proof -
  let ?b = "block_at green_square 16 128 8 8 0"
  show "b_origin_x ?b = 8" "b_origin_y ?b = 8" "b_visible_pixels ?b = 256"
    by (simp_all add: block_at_fields green_block_counts)
  have m: "map (\<lambda>e. (ce_rgba_hex e, ce_count e)) (b_color_counts ?b) = [(''#00FF00FF'', 256)]"
    using block_at_color_counts(1)[of green_square 16 128 8 8 0] green_block_counts(3) by simp
  then obtain e where e: "b_color_counts ?b = [e]" "ce_rgba_hex e = ''#00FF00FF''" by auto
  have "e \<in> set (b_color_counts ?b)" by (simp add: e(1))
  with block_at_color_counts(2)[of green_square 16 128 8 8 0] obtain p where
    p0: "ce_rgba_hex e = rgba_hex p" and p23: "ce_rgb_hex e = take 7 (rgba_hex p)" "ce_a e = alpha p"
    by blast
  from p0 e(2) have p1: "rgba_hex p = ''#00FF00FF''" by simp
  note p = p1 p23
  have "int16 ''FF'' = Inr 255" by code_simp
  with rgba_hex_last2[of p] p(1) have "alpha p = 255" by simp
  with e p show "\<exists>e. b_color_counts ?b = [e]
       \<and> ce_rgba_hex e = ''#00FF00FF'' \<and> ce_rgb_hex e = ''#00FF00'' \<and> ce_a e = 255"
    by simp
qed

lemma green_row:
  "\<exists>r. scan_row_blocks green_square 8 16 128 = Some (Some r)
      \<and> r_blocks r = [block_at green_square 16 128 8 8 0]"
proof -
  let ?b = "block_at green_square 16 128 8 8 0"
  from scan_row_blocks_anchor[OF green_scanners(5)] obtain kept removed where
    k: "blocks_from green_square 16 128 8 8 0 = kept @ removed"
    "\<forall>b\<in>set removed. sparse 16 b"
    "scan_row_blocks green_square 8 16 128 =
        Some (if kept = [] then None
              else Some \<lparr>r_block_size = 16, r_blocks = kept,
                         r_total_blocks = int (length kept),
                         r_first_pixel = (8, 8),
                         r_last_pixel_visited =
                           (b_origin_x (last kept) + 16 - 1, b_origin_y (last kept) + 16 - 1)\<rparr>)"
    by blast
  have ns: "\<not> sparse 16 ?b" by (simp add: sparse_def green_block(3))
  from k(1) have eq: "kept @ removed = [?b]" by (simp add: green_blocks)
  have "removed = []"
  proof (rule ccontr)
    assume "removed \<noteq> []"
    with eq have "removed = [?b]" by (cases kept) auto
    with k(2) ns show False by simp
  qed
  with eq have "kept = [?b]" by simp
  with k(3) show ?thesis by simp
qed

section \<open>The trailing trim\<close>



section \<open>The concrete scenario\<close>

text \<open>
  Claim C1.  On the 32 by 32 image whose only visible content is a 16 by 16 square of
  colour (0, 255, 0, 255) at (8, 8), with threshold 128 and block size 16: the scan for the
  first visible pixel returns (8, 8); the row scan at row 8 returns a row with exactly one
  block, of origin (8, 8), with 256 visible pixels and dominant colour \<open>#00FF00FF\<close>; and the
  run writes a document with a 1 by 1 canvas and exactly one rectangle, at (0, 0), with
  fill \<open>#00FF00\<close> and fill opacity 1.  (The run then ends with exit code 0, unless it is
  not quiet and the standard output cannot encode the summary.)
\<close>

theorem green_square_scenario:
  "find_first_nontransparent_pixel green_square 128 = Some (8, 8)
   \<and> (\<exists>r b. scan_row_blocks green_square 8 16 128 = Some (Some r) \<and> r_blocks r = [b]
         \<and> b_origin_x b = 8 \<and> b_origin_y b = 8 \<and> b_visible_pixels b = 256
         \<and> ce_rgba_hex (hd (b_color_counts b)) = ''#00FF00FF'')
   \<and> main \<lparr>parse_args = Namespace, image_is_file = True, image_opens = Some green_square,
            arg_block_size = 16, svg_out_writable = True, quiet = q, stdout_encodes = enc\<rparr>
       = Some ((if q \<or> enc then Exit 0 else Uncaught UnicodeEncodeError)
                 (Some \<lparr>canvas_w = 1, canvas_h = 1,
                    rects = [\<lparr>rect_x = 0, rect_y = 0, rect_fill = ''#00FF00'',
                              rect_fill_opacity = 1\<rparr>]\<rparr>))"
proof -
  let ?b = "block_at green_square 16 128 8 8 0"
  from green_row obtain r where r: "scan_row_blocks green_square 8 16 128 = Some (Some r)"
    "r_blocks r = [?b]" by blast
  from green_block(4) obtain e where e: "b_color_counts ?b = [e]"
    "ce_rgba_hex e = ''#00FF00FF''" "ce_rgb_hex e = ''#00FF00''" "ce_a e = 255" by blast
  have two: "\<exists>r b. scan_row_blocks green_square 8 16 128 = Some (Some r) \<and> r_blocks r = [b]
         \<and> b_origin_x b = 8 \<and> b_origin_y b = 8 \<and> b_visible_pixels b = 256
         \<and> ce_rgba_hex (hd (b_color_counts b)) = ''#00FF00FF''"
    by (intro exI[of _ r] exI[of _ ?b]) (simp add: r green_block(1,2,3) e)
  have r24: "rows_from green_square 16 128 23 24 = []"
    by (subst rows_from.simps) simp
  have rows: "rows_from green_square 16 128 23 8 = [r]"
    by (subst rows_from.simps) (simp add: r r24)
  have sar: "scan_all_rows green_square 16 128 23 8 [] = Some [r]"
    using scan_all_rows_eq[of 16 green_square 128 23 8 "[]"] rows by simp
  have top: "top_ref_of [r] = 8" by (simp add: top_ref_of_def r(2) green_block(2))
  have rect: "block_rect 16 8 8 ?b
      = Some \<lparr>rect_x = 0, rect_y = 0, rect_fill = ''#00FF00'', rect_fill_opacity = 1\<rparr>"
    by (simp add: block_rect_def e green_block(1,2) round4_def)
  have gen: "generate_svg 16 (Some (8, 8)) (Some (23, 8)) 23 [r]
      = Inr \<lparr>canvas_w = 1, canvas_h = 1,
            rects = [\<lparr>rect_x = 0, rect_y = 0, rect_fill = ''#00FF00'',
                      rect_fill_opacity = 1\<rparr>]\<rparr>"
    using generate_svg_eq[of "[r]" 16 23 8 23 8 8] top
    by (simp add: r(2) rect List.map_filter_simps)
  have three: "main \<lparr>parse_args = Namespace, image_is_file = True, image_opens = Some green_square,
            arg_block_size = 16, svg_out_writable = True, quiet = q, stdout_encodes = enc\<rparr>
       = Some ((if q \<or> enc then Exit 0 else Uncaught UnicodeEncodeError)
                 (Some \<lparr>canvas_w = 1, canvas_h = 1,
                    rects = [\<lparr>rect_x = 0, rect_y = 0, rect_fill = ''#00FF00'',
                              rect_fill_opacity = 1\<rparr>]\<rparr>))"
    by (simp add: main_def green_scanners sar gen)
  from green_scanners(1) two three show ?thesis by blast
qed

section \<open>Round trip\<close>




section \<open>Exit codes\<close>

text \<open>
  Claim C3, as the code has it.  Once the command line is parsed, the run ends with exit
  code 3 when the input is bad (the path is no file, or the image cannot be opened) and
  also when the document cannot be written; it ends with exit code 2 when no content is
  found (no pixel meets the threshold, or no row results).  So the exit code tells "no
  content found" from the other two failures, which share one code.
\<close>

theorem exit_codes:
  "(parse_args args = Namespace \<and> (\<not> image_is_file args \<or> image_opens args = None)
      \<longrightarrow> main args = Some (Exit 3 None))
   \<and> (parse_args args = Namespace \<and> image_is_file args \<and> image_opens args = Some im
        \<and> find_first_nontransparent_pixel im 128 = None
      \<longrightarrow> main args = Some (Exit 2 None))
   \<and> (parse_args args = Namespace \<and> image_is_file args \<and> image_opens args = Some im
        \<and> find_first_nontransparent_pixel im 128 = Some (fx, fy)
        \<and> find_last_nontransparent_pixel im 128 = Some (bx, by)
        \<and> scan_all_rows im (arg_block_size args) 128 by fy [] = Some []
      \<longrightarrow> main args = Some (Exit 2 None))
   \<and> (parse_args args = Namespace \<and> image_is_file args \<and> image_opens args = Some im
        \<and> find_first_nontransparent_pixel im 128 = Some (fx, fy)
        \<and> find_last_nontransparent_pixel im 128 = Some (bx, by)
        \<and> scan_all_rows im (arg_block_size args) 128 by fy [] = Some rows \<and> rows \<noteq> []
        \<and> \<not> svg_out_writable args
      \<longrightarrow> main args = Some (Exit 3 None))"
proof (intro conjI impI)
  assume "parse_args args = Namespace \<and> (\<not> image_is_file args \<or> image_opens args = None)"
  then show "main args = Some (Exit 3 None)" by (auto simp: main_def)
next
  assume "parse_args args = Namespace \<and> image_is_file args \<and> image_opens args = Some im
        \<and> find_first_nontransparent_pixel im 128 = None"
  then show "main args = Some (Exit 2 None)" by (simp add: main_def)
next
  assume "parse_args args = Namespace \<and> image_is_file args \<and> image_opens args = Some im
        \<and> find_first_nontransparent_pixel im 128 = Some (fx, fy)
        \<and> find_last_nontransparent_pixel im 128 = Some (bx, by)
        \<and> scan_all_rows im (arg_block_size args) 128 by fy [] = Some []"
  then show "main args = Some (Exit 2 None)" by (simp add: main_def)
next
  assume a: "parse_args args = Namespace \<and> image_is_file args \<and> image_opens args = Some im
        \<and> find_first_nontransparent_pixel im 128 = Some (fx, fy)
        \<and> find_last_nontransparent_pixel im 128 = Some (bx, by)
        \<and> scan_all_rows im (arg_block_size args) 128 by fy [] = Some rows \<and> rows \<noteq> []
        \<and> \<not> svg_out_writable args"
  then have f: "find_first_nontransparent_pixel im 128 = Some (fx, fy)"
    and l: "find_last_nontransparent_pixel im 128 = Some (bx, by)"
    and sar: "scan_all_rows im (arg_block_size args) 128 by fy [] = Some rows"
    and ne: "rows \<noteq> []" by simp_all
  from run_generates[OF f l sar ne] obtain doc where
    "generate_svg (arg_block_size args) (find_leftmost_nontransparent_pixel im 128)
       (find_rightmost_nontransparent_pixel im 128) by rows = Inr doc" by metis
  with a show "main args = Some (Exit 3 None)" by (simp add: main_def)
qed

text \<open>
  One run of each kind: a path that is no file, an image without a visible pixel, an image
  whose only strip is trimmed away, and a document that cannot be written.
\<close>

theorem exit_codes_witness:
  "main \<lparr>parse_args = Namespace, image_is_file = False, image_opens = None,
          arg_block_size = 16, svg_out_writable = True, quiet = False,
          stdout_encodes = True\<rparr> = Some (Exit 3 None)
   \<and> main \<lparr>parse_args = Namespace, image_is_file = True, image_opens = Some blank,
            arg_block_size = 16, svg_out_writable = True, quiet = False,
            stdout_encodes = True\<rparr> = Some (Exit 2 None)
   \<and> find_first_nontransparent_pixel speck 128 = Some (0, 0)
   \<and> scan_all_rows speck 2 128 0 0 [] = Some []
   \<and> main \<lparr>parse_args = Namespace, image_is_file = True, image_opens = Some speck,
            arg_block_size = 2, svg_out_writable = True, quiet = False,
            stdout_encodes = True\<rparr> = Some (Exit 2 None)
   \<and> main \<lparr>parse_args = Namespace, image_is_file = True, image_opens = Some dot,
            arg_block_size = 1, svg_out_writable = False, quiet = False,
            stdout_encodes = True\<rparr> = Some (Exit 3 None)"
proof -
  let ?missing = "\<lparr>parse_args = Namespace, image_is_file = False, image_opens = None,
          arg_block_size = 16, svg_out_writable = True, quiet = False,
          stdout_encodes = True\<rparr>"
  let ?empty = "\<lparr>parse_args = Namespace, image_is_file = True, image_opens = Some blank,
            arg_block_size = 16, svg_out_writable = True, quiet = False,
            stdout_encodes = True\<rparr>"
  let ?trimmed = "\<lparr>parse_args = Namespace, image_is_file = True, image_opens = Some speck,
            arg_block_size = 2, svg_out_writable = True, quiet = False,
            stdout_encodes = True\<rparr>"
  let ?readonly = "\<lparr>parse_args = Namespace, image_is_file = True, image_opens = Some dot,
            arg_block_size = 1, svg_out_writable = False, quiet = False,
            stdout_encodes = True\<rparr>"
  have e: "find_first_nontransparent_pixel blank 128 = None" by code_simp
  have sf: "find_first_nontransparent_pixel speck 128 = Some (0, 0)" by code_simp
  have sl: "find_last_nontransparent_pixel speck 128 = Some (0, 0)" by code_simp
  have ss: "scan_all_rows speck 2 128 0 0 [] = Some []" by code_simp
  have f: "find_first_nontransparent_pixel dot 128 = Some (0, 0)" by code_simp
  have l: "find_last_nontransparent_pixel dot 128 = Some (0, 0)" by code_simp
  have "map_option length (scan_all_rows dot 1 128 0 0 []) = Some 1" by code_simp
  then obtain rows where r: "scan_all_rows dot 1 128 0 0 [] = Some rows" "length rows = 1"
    by (auto simp: map_option_case split: option.splits)
  from r(2) have ne: "rows \<noteq> []" by auto
  have 1: "main ?missing = Some (Exit 3 None)"
    using exit_codes[of ?missing] by simp
  have 2: "main ?empty = Some (Exit 2 None)"
    using exit_codes[of ?empty blank] e by simp
  have 3: "main ?trimmed = Some (Exit 2 None)"
    using exit_codes[of ?trimmed speck 0 0 0 0] sf sl ss by simp
  have 4: "main ?readonly = Some (Exit 3 None)"
    using exit_codes[of ?readonly dot 0 0 0 0 rows] f l r(1) ne by simp
  from 1 2 sf ss 3 4 show ?thesis by simp
qed

text \<open>
  The three failure classes do not have three codes: a missing input and a document that
  cannot be written both end with exit code 3.
\<close>

theorem exit_codes_counterexample:
  "main \<lparr>parse_args = Namespace, image_is_file = False, image_opens = None,
          arg_block_size = 16, svg_out_writable = True, quiet = False,
          stdout_encodes = True\<rparr> = Some (Exit 3 None)
   \<and> main \<lparr>parse_args = Namespace, image_is_file = True, image_opens = Some dot,
            arg_block_size = 1, svg_out_writable = False, quiet = False,
            stdout_encodes = True\<rparr> = Some (Exit 3 None)"
  by code_simp
section \<open>The canvas size\<close>




section \<open>Boundary contrast\<close>

text \<open>
  Claim C5, as the code has it.  For a block size other than 0, the boundary contrast is
  \<open>avgBoundary / avgInside\<close> when \<open>avgInside\<close> is at least 0.001; when \<open>avgInside\<close> is below
  0.001 it is \<open>avgBoundary / 0.001\<close> if \<open>avgBoundary\<close> is positive and 1 otherwise.  Here
  \<open>avgBoundary\<close> and \<open>avgInside\<close> are the averages of the gradient magnitude over the
  positions whose X or Y coordinate is 0 or N - 1 modulo N, and over the others.
\<close>

theorem boundary_contrast_value:
  assumes "block_size \<noteq> 0"
  shows "compute_boundary_contrast grad_magnitude h w block_size =
     Inr (if average grad_magnitude (inside_cells h w block_size) \<ge> 0.001
          then average grad_magnitude (boundary_cells h w block_size)
                 / average grad_magnitude (inside_cells h w block_size)
          else if average grad_magnitude (boundary_cells h w block_size) > 0
          then average grad_magnitude (boundary_cells h w block_size) / 0.001
          else 1)"
  by (simp add: compute_boundary_contrast_def gradient_at_positions_eq[OF assms])

theorem boundary_contrast_value_witness:
  "(2::int) \<noteq> 0 \<and> compute_boundary_contrast flat_gradient 2 2 2 =
     Inr (if average flat_gradient (inside_cells 2 2 2) \<ge> 0.001
          then average flat_gradient (boundary_cells 2 2 2)
                 / average flat_gradient (inside_cells 2 2 2)
          else if average flat_gradient (boundary_cells 2 2 2) > 0
          then average flat_gradient (boundary_cells 2 2 2) / 0.001
          else 1)"
  using boundary_contrast_value[of 2 flat_gradient 2 2] by simp

text \<open>
  On a flat image both averages are 0 and the contrast is 1, not \<open>0 / 0.001\<close>.
\<close>

theorem boundary_contrast_counterexample:
  "compute_gradient_at_positions flat_gradient 2 2 2 = Inr (0, 0)
   \<and> compute_boundary_contrast flat_gradient 2 2 2 = Inr 1
   \<and> (0::real) / 0.001 \<noteq> 1"
  by (simp add: compute_boundary_contrast_def compute_gradient_at_positions_def positions_def
      range_py_def mean_or_zero_def flat_gradient_def on_boundary_def Let_def upto.simps)

section \<open>Rectangles and grid cells\<close>




section \<open>The order of a block's colour counts\<close>

text \<open>
  Claim C7.  For every block of a row returned by \<open>scan_row_blocks\<close>, the colours and
  counts of \<open>color_counts\<close> are the ranking of the multiset of the block's visible pixel
  colours: by falling count and, among equal counts, by rising colour string (strictly, as
  no colour occurs twice).  The list is not empty, so its first entry, the dominant
  colour, is a function of that multiset alone.
\<close>

theorem color_counts_ranked:
  assumes "scan_row_blocks im start_y bs t = Some (Some r)" and "b \<in> set (r_blocks r)"
  shows "map (\<lambda>e. (ce_rgba_hex e, ce_count e)) (b_color_counts b)
           = ranked (mset (map rgba_hex (visible_colors im bs t (b_origin_x b) (b_origin_y b))))
       \<and> sorted_wrt (\<lambda>e1 e2. ce_count e1 > ce_count e2
                        \<or> (ce_count e1 = ce_count e2 \<and> ce_rgba_hex e1 < ce_rgba_hex e2))
           (b_color_counts b)
       \<and> b_color_counts b \<noteq> []"
proof -
  let ?ks = "map rgba_hex (visible_colors im bs t (b_origin_x b) (b_origin_y b))"
  have b: "b = block_at im bs t (b_origin_x b) (b_origin_y b) (b_index b)"
    by (rule row_block_is_block_at(1)[OF assms])
  have v: "0 < b_visible_pixels b"
    by (rule row_block_is_block_at(2)[OF assms])
  have m: "map (\<lambda>e. (ce_rgba_hex e, ce_count e)) (b_color_counts b) = sorted_items (count_colors [] ?ks)"
    using block_at_color_counts(1)[of im bs t "b_origin_x b" "b_origin_y b" "b_index b"] b by simp
  then have one: "map (\<lambda>e. (ce_rgba_hex e, ce_count e)) (b_color_counts b) = ranked (mset ?ks)"
    by (simp add: sorted_items_ranked)
  have "sorted_wrt (\<lambda>a b. snd a > snd b \<or> (snd a = snd b \<and> fst a < fst b))
          (map (\<lambda>e. (ce_rgba_hex e, ce_count e)) (b_color_counts b))"
    unfolding m by (rule sorted_items_strict) (simp add: count_colors_distinct)
  then have two: "sorted_wrt (\<lambda>e1 e2. ce_count e1 > ce_count e2
                        \<or> (ce_count e1 = ce_count e2 \<and> ce_rgba_hex e1 < ce_rgba_hex e2))
           (b_color_counts b)"
    by (simp add: sorted_wrt_map)
  from v b have "visible_colors im bs t (b_origin_x b) (b_origin_y b) \<noteq> []"
    using visible_colors_nonempty[of im bs t "b_origin_x b" "b_origin_y b" "b_index b"] by simp
  then have "fst ` set (count_colors [] ?ks) \<noteq> {}" by (simp add: count_colors_keys)
  then have "sorted_items (count_colors [] ?ks) \<noteq> []"
    using set_sorted_items[of "count_colors [] ?ks"] by auto
  with m have three: "b_color_counts b \<noteq> []" by auto
  from one two three show ?thesis by simp
qed

theorem color_counts_ranked_witness:
  "\<exists>r b. scan_row_blocks stagger 2 2 128 = Some (Some r) \<and> b \<in> set (r_blocks r)
     \<and> map (\<lambda>e. (ce_rgba_hex e, ce_count e)) (b_color_counts b) = [(''#FF0000FF'', 3), (''#0000FFFF'', 1)]
     \<and> map (\<lambda>e. (ce_rgba_hex e, ce_count e)) (b_color_counts b)
           = ranked (mset (map rgba_hex (visible_colors stagger 2 128 (b_origin_x b) (b_origin_y b))))
     \<and> sorted_wrt (\<lambda>e1 e2. ce_count e1 > ce_count e2
                        \<or> (ce_count e1 = ce_count e2 \<and> ce_rgba_hex e1 < ce_rgba_hex e2))
           (b_color_counts b)
     \<and> b_color_counts b \<noteq> []"
proof -
  have ev: "map_option (map_option (\<lambda>r. map (\<lambda>b. map (\<lambda>e. (ce_rgba_hex e, ce_count e)) (b_color_counts b)) (r_blocks r)))
         (scan_row_blocks stagger 2 2 128) = Some (Some [[(''#FF0000FF'', 3), (''#0000FFFF'', 1)]])"
    by code_simp
  then obtain r where r: "scan_row_blocks stagger 2 2 128 = Some (Some r)"
    and bl: "map (\<lambda>b. map (\<lambda>e. (ce_rgba_hex e, ce_count e)) (b_color_counts b)) (r_blocks r)
              = [[(''#FF0000FF'', 3), (''#0000FFFF'', 1)]]"
    by (auto simp: map_option_case split: option.splits)
  from bl obtain b where b: "r_blocks r = [b]"
    "map (\<lambda>e. (ce_rgba_hex e, ce_count e)) (b_color_counts b) = [(''#FF0000FF'', 3), (''#0000FFFF'', 1)]"
    by auto
  then have mem: "b \<in> set (r_blocks r)" by simp
  note c = color_counts_ranked[OF r mem]
  show ?thesis
    by (intro exI[of _ r] exI[of _ b] conjI)
       (rule r mem b(2) c[THEN conjunct1] c[THEN conjunct2, THEN conjunct1]
          c[THEN conjunct2, THEN conjunct2])+
qed

section \<open>Fills that are not colours\<close>

text \<open>
  Claim C10, as the code has it.  A rectangle whose numeric attributes are read, which lies
  at non-negative coordinates, and whose fill does not start with \<open>#\<close> or is not seven
  characters long is drawn in black: its cells within the canvas become (0, 0, 0) and no
  other cell changes.  A rectangle whose fill has seven characters and starts with \<open>#\<close>
  but has a pair of characters that \<open>int(_, 16)\<close> does not read is skipped, and so is a
  rectangle with a coordinate or size attribute that is not read as a number.
\<close>

theorem fill_shape_cases:
  "(attr_num num (a_x rect) 0 = Some x \<and> attr_num num (a_y rect) 0 = Some y
      \<and> attr_num num (a_width rect) 1 = Some w \<and> attr_num num (a_height rect) 1 = Some h
      \<and> 0 \<le> x \<and> 0 \<le> y \<and> ras_w img = vb_width \<and> ras_h img = vb_height
      \<and> \<not> (take 1 (fill_attr rect) = ''#'' \<and> length (fill_attr rect) = 7)
    \<longrightarrow> (\<forall>c. ras_px (draw_rect num vb_width vb_height img rect) c
               = (if c \<in> set (rect_cells x y w h vb_width vb_height) then (0, 0, 0)
                  else ras_px img c)))
   \<and> (take 1 (fill_attr rect) = ''#'' \<and> length (fill_attr rect) = 7
      \<and> (isl (int16 (take 2 (drop 1 (fill_attr rect))))
          \<or> isl (int16 (take 2 (drop 3 (fill_attr rect))))
          \<or> isl (int16 (take 2 (drop 5 (fill_attr rect)))))
    \<longrightarrow> draw_rect num vb_width vb_height img rect = img)
   \<and> (attr_num num (a_x rect) 0 = None \<or> attr_num num (a_y rect) 0 = None
      \<or> attr_num num (a_width rect) 1 = None \<or> attr_num num (a_height rect) 1 = None
    \<longrightarrow> draw_rect num vb_width vb_height img rect = img)"
proof (intro conjI impI)
  assume a: "attr_num num (a_x rect) 0 = Some x \<and> attr_num num (a_y rect) 0 = Some y
      \<and> attr_num num (a_width rect) 1 = Some w \<and> attr_num num (a_height rect) 1 = Some h
      \<and> 0 \<le> x \<and> 0 \<le> y \<and> ras_w img = vb_width \<and> ras_h img = vb_height
      \<and> \<not> (take 1 (fill_attr rect) = ''#'' \<and> length (fill_attr rect) = 7)"
  then have fc: "fill_color (fill_attr rect) = Inr (0, 0, 0)"
    by (auto simp: fill_color_def)
  from a have d: "draw_rect num vb_width vb_height img rect
      = paint img (rect_cells x y w h vb_width vb_height) (0, 0, 0)"
    by (intro draw_rect_paint fc) simp_all
  have r: "\<forall>c\<in>set (rect_cells x y w h vb_width vb_height).
             0 \<le> fst c \<and> fst c < ras_w img \<and> 0 \<le> snd c \<and> snd c < ras_h img"
    using a by (auto simp: rect_cells_mem)
  show "\<forall>c. ras_px (draw_rect num vb_width vb_height img rect) c
               = (if c \<in> set (rect_cells x y w h vb_width vb_height) then (0, 0, 0)
                  else ras_px img c)"
    unfolding d using paint_in_range[OF r, of 0 0 0] by (simp add: clip8_def)
next
  assume a: "take 1 (fill_attr rect) = ''#'' \<and> length (fill_attr rect) = 7
      \<and> (isl (int16 (take 2 (drop 1 (fill_attr rect))))
          \<or> isl (int16 (take 2 (drop 3 (fill_attr rect))))
          \<or> isl (int16 (take 2 (drop 5 (fill_attr rect)))))"
  then have "isl (fill_color (fill_attr rect))"
    by (auto simp: fill_color_def split: sum.splits)
  then obtain e where "fill_color (fill_attr rect) = Inl e"
    by (auto simp: isl_def)
  then show "draw_rect num vb_width vb_height img rect = img" by (rule draw_rect_skip_fill)
next
  assume "attr_num num (a_x rect) 0 = None \<or> attr_num num (a_y rect) 0 = None
      \<or> attr_num num (a_width rect) 1 = None \<or> attr_num num (a_height rect) 1 = None"
  then show "draw_rect num vb_width vb_height img rect = img" by (rule draw_rect_skip_num)
qed

theorem fill_shape_cases_witness:
  "ras_px (draw_rect plain_decimal 1 1 (new_image 1 1)
       \<lparr>a_x = Some ''0'', a_y = Some ''0'', a_width = Some ''1'', a_height = Some ''1'',
        a_fill = Some ''red''\<rparr>) (0, 0) = (0, 0, 0)
   \<and> draw_rect plain_decimal 1 1 (new_image 1 1)
       \<lparr>a_x = Some ''0'', a_y = Some ''0'', a_width = Some ''1'', a_height = Some ''1'',
        a_fill = Some ''#GGGGGG''\<rparr> = new_image 1 1
   \<and> draw_rect plain_decimal 1 1 (new_image 1 1)
       \<lparr>a_x = Some ''left'', a_y = Some ''0'', a_width = Some ''1'', a_height = Some ''1'',
        a_fill = Some ''red''\<rparr> = new_image 1 1"
proof -
  have n: "plain_decimal ''0'' = Some 0" "plain_decimal ''1'' = Some 1" "plain_decimal ''left'' = None"
    by code_simp+
  have g: "isl (int16 ''GG'')" by code_simp
  have c: "(0, 0) \<in> set (rect_cells 0 0 1 1 1 1)" by (simp add: rect_cells_mem)
  have 1: "ras_px (draw_rect plain_decimal 1 1 (new_image 1 1)
       \<lparr>a_x = Some ''0'', a_y = Some ''0'', a_width = Some ''1'', a_height = Some ''1'',
        a_fill = Some ''red''\<rparr>) (0, 0) = (0, 0, 0)"
    using fill_shape_cases[of plain_decimal
        "\<lparr>a_x = Some ''0'', a_y = Some ''0'', a_width = Some ''1'', a_height = Some ''1'',
        a_fill = Some ''red''\<rparr>" 0 0 1 1 "new_image 1 1" 1 1, THEN conjunct1] n c
    by (simp add: attr_num_def fill_attr_def new_image_def)
  have 2: "draw_rect plain_decimal 1 1 (new_image 1 1)
       \<lparr>a_x = Some ''0'', a_y = Some ''0'', a_width = Some ''1'', a_height = Some ''1'',
        a_fill = Some ''#GGGGGG''\<rparr> = new_image 1 1"
    using fill_shape_cases[of plain_decimal
        "\<lparr>a_x = Some ''0'', a_y = Some ''0'', a_width = Some ''1'', a_height = Some ''1'',
        a_fill = Some ''#GGGGGG''\<rparr>" 0 0 1 1 "new_image 1 1" 1 1,
        THEN conjunct2, THEN conjunct1] g
    by (simp add: fill_attr_def)
  have 3: "draw_rect plain_decimal 1 1 (new_image 1 1)
       \<lparr>a_x = Some ''left'', a_y = Some ''0'', a_width = Some ''1'', a_height = Some ''1'',
        a_fill = Some ''red''\<rparr> = new_image 1 1"
    using fill_shape_cases[of plain_decimal
        "\<lparr>a_x = Some ''left'', a_y = Some ''0'', a_width = Some ''1'', a_height = Some ''1'',
        a_fill = Some ''red''\<rparr>" 0 0 1 1 "new_image 1 1" 1 1,
        THEN conjunct2, THEN conjunct2] n
    by (simp add: attr_num_def)
  from 1 2 3 show ?thesis by simp
qed

text \<open>
  A fill of seven characters that starts with \<open>#\<close> and holds no hexadecimal digits is not of
  the form \<open>#RRGGBB\<close>; its rectangle is skipped although its coordinates and size are read:
  the cell stays white.
\<close>

theorem bad_hex_fill_counterexample:
  "map_option (\<lambda>img. ras_px img (0, 0)) (svg_to_editable_png plain_decimal (Some bad_fill_doc) 16)
     = Some (255, 255, 255)"
  by code_simp

section \<open>A fully transparent image\<close>

text \<open>
  Claim C8.  If every pixel of the image has alpha 0 and the threshold is at least 1, each
  of the four boundary scanners returns no coordinate, and the command-line run on that
  image ends with exit code 2 ("no content found") without writing a document, whatever
  the block size.
\<close>

theorem transparent_image_is_empty:
  assumes "\<forall>x y. 0 \<le> x \<and> x < width im \<and> 0 \<le> y \<and> y < height im \<longrightarrow> alpha (px im x y) = 0"
    and "1 \<le> t"
  shows "find_first_nontransparent_pixel im t = None
       \<and> find_last_nontransparent_pixel im t = None
       \<and> find_leftmost_nontransparent_pixel im t = None
       \<and> find_rightmost_nontransparent_pixel im t = None
       \<and> main \<lparr>parse_args = Namespace, image_is_file = True, image_opens = Some im,
               arg_block_size = bs, svg_out_writable = wr, quiet = q,
               stdout_encodes = enc\<rparr> = Some (Exit 2 None)"
proof -
  have inv: "\<not> visible_in im u x y" if "1 \<le> u" for u x y
    using assms(1) that by (auto simp: visible_in_def)
  have "find_first_nontransparent_pixel im 128 = None"
    unfolding find_first_None_iff using inv by simp
  then have "main \<lparr>parse_args = Namespace, image_is_file = True, image_opens = Some im,
               arg_block_size = bs, svg_out_writable = wr, quiet = q,
               stdout_encodes = enc\<rparr> = Some (Exit 2 None)"
    by (simp add: main_def)
  then show ?thesis
    unfolding find_first_None_iff find_last_None_iff find_leftmost_None_iff find_rightmost_None_iff
    using inv[OF assms(2)] by simp
qed

theorem transparent_image_is_empty_witness:
  "find_first_nontransparent_pixel \<lparr>width = 2, height = 2, px = (\<lambda>x y. (7, 7, 7, 0))\<rparr> 1 = None
   \<and> find_last_nontransparent_pixel \<lparr>width = 2, height = 2, px = (\<lambda>x y. (7, 7, 7, 0))\<rparr> 1 = None
   \<and> find_leftmost_nontransparent_pixel \<lparr>width = 2, height = 2, px = (\<lambda>x y. (7, 7, 7, 0))\<rparr> 1 = None
   \<and> find_rightmost_nontransparent_pixel \<lparr>width = 2, height = 2, px = (\<lambda>x y. (7, 7, 7, 0))\<rparr> 1 = None
   \<and> main \<lparr>parse_args = Namespace, image_is_file = True,
           image_opens = Some \<lparr>width = 2, height = 2, px = (\<lambda>x y. (7, 7, 7, 0))\<rparr>,
           arg_block_size = 16, svg_out_writable = True, quiet = False,
           stdout_encodes = True\<rparr> = Some (Exit 2 None)"
  using transparent_image_is_empty
    [of "\<lparr>width = 2, height = 2, px = (\<lambda>x y. (7, 7, 7, 0))\<rparr>" 1 16 True False True]
  by (simp add: alpha_def)

end
